theory Spec2Isabelle
  imports Complex_Main "HOL-Library.AList"
begin

section \<open>Inventory manager\<close>

subsection \<open>Cells and the inventory map\<close>

text \<open>
  A cell object of \<^verbatim>\<open>inventoryManager\<close>: \<^verbatim>\<open>{occupied, palletId, block, layer, row, depth}\<close>.
  The pallet identifier is \<^verbatim>\<open>string | null\<close>.
\<close>

record cell =
  occupied :: bool
  palletId :: "string option"
  block :: int
  layer :: int
  row :: int
  depth :: int

text \<open>
  The inventory is a JavaScript \<^verbatim>\<open>Map\<close> from cell identifier to cell. It is kept as an
  association list in insertion order: \<^verbatim>\<open>get\<close> is \<^const>\<open>map_of\<close>, and \<^verbatim>\<open>set\<close> is
  \<^const>\<open>AList.update\<close>, which overwrites an existing key in place and appends a new one.
\<close>

type_synonym inventory = "(string \<times> cell) list"

text \<open>JavaScript truthiness of a \<^verbatim>\<open>string | null\<close> value: null and the empty string are falsy.\<close>

definition truthy :: "string option \<Rightarrow> bool" where
  "truthy p = (case p of None \<Rightarrow> False | Some s \<Rightarrow> s \<noteq> [])"

text \<open>
  \<^verbatim>\<open>generatePalletId\<close> returns \<^verbatim>\<open>PLT-\<close> followed by a random suffix; the suffix drawn at
  the call is a parameter.
\<close>

definition generatePalletId :: "string \<Rightarrow> string" where
  "generatePalletId rnd = ''PLT-'' @ rnd"

subsection \<open>Mutators\<close>

text \<open>The mutators change the map in place; the model returns the result and the new map.\<close>

definition storePallet :: "string \<Rightarrow> inventory \<Rightarrow> string \<Rightarrow> bool \<times> inventory" where
  "storePallet rnd iv cellId =
     (case map_of iv cellId of
        None \<Rightarrow> (False, iv)
      | Some c \<Rightarrow>
          if occupied c then (False, iv)
          else (True,
                AList.update cellId
                  (c\<lparr>occupied := True, palletId := Some (generatePalletId rnd)\<rparr>) iv))"

definition removePallet :: "inventory \<Rightarrow> string \<Rightarrow> string option \<times> inventory" where
  "removePallet iv cellId =
     (case map_of iv cellId of
        None \<Rightarrow> (None, iv)
      | Some c \<Rightarrow>
          if \<not> occupied c then (None, iv)
          else (palletId c,
                AList.update cellId (c\<lparr>occupied := False, palletId := None\<rparr>) iv))"

text \<open>
  \<^verbatim>\<open>transferPallet\<close>: the test \<^verbatim>\<open>if (!palletId) return false\<close> is on the truthiness of the
  value \<^verbatim>\<open>removePallet\<close> returned. The rollback re-reads the source cell from the map; the
  cell is there whenever the branch is reached (lemma \<open>removePallet_truthy_present\<close>), so the
  \<open>None\<close> case of that read is never taken.
\<close>

definition transferPallet :: "inventory \<Rightarrow> string \<Rightarrow> string \<Rightarrow> bool \<times> inventory" where
  "transferPallet iv sourceCellId targetCellId =
     (case removePallet iv sourceCellId of
        (pid, iv1) \<Rightarrow>
          if \<not> truthy pid then (False, iv1)
          else
            (case map_of iv1 targetCellId of
               None \<Rightarrow>
                 (False,
                  case map_of iv1 sourceCellId of
                    None \<Rightarrow> iv1
                  | Some sc \<Rightarrow>
                      AList.update sourceCellId (sc\<lparr>occupied := True, palletId := pid\<rparr>) iv1)
             | Some targetCell \<Rightarrow>
                 if occupied targetCell then
                   (False,
                    case map_of iv1 sourceCellId of
                      None \<Rightarrow> iv1
                    | Some sc \<Rightarrow>
                        AList.update sourceCellId (sc\<lparr>occupied := True, palletId := pid\<rparr>) iv1)
                 else
                   (True,
                    AList.update targetCellId
                      (targetCell\<lparr>occupied := True, palletId := pid\<rparr>) iv1)))"

text \<open>The position fields of a cell, which no mutator writes.\<close>

definition position :: "cell \<Rightarrow> int \<times> int \<times> int \<times> int" where
  "position c = (block c, layer c, row c, depth c)"

subsection \<open>Basic facts about the map operations\<close>

lemma update_same_value:
  "map_of iv k = Some c \<Longrightarrow> AList.update k c iv = iv"
  by (induction iv) (auto split: if_splits)

lemma update_twice:
  "AList.update k v (AList.update k w iv) = AList.update k v iv"
  by (induction iv) auto

lemma removePallet_truthy_present:
  "removePallet iv s = (pid, iv1) \<Longrightarrow> truthy pid \<Longrightarrow> map_of iv1 s \<noteq> None"
  by (auto simp: removePallet_def truthy_def update_conv' split: option.splits if_splits)

subsection \<open>The data invariant, the composed transfer, and the frame\<close>

text \<open>
  The data model has the pallet identifier present exactly on occupied cells.
  \<open>initializeInventory\<close>, \<open>storePallet\<close> and \<open>transferPallet\<close> only ever write an occupied
  cell together with a truthy identifier; the part of the invariant the proofs need is that
  every occupied cell carries a truthy (non-null, non-empty) identifier.
\<close>

definition palletIdsPresent :: "inventory \<Rightarrow> bool" where
  "palletIdsPresent iv = list_all (\<lambda>(k, c). occupied c \<longrightarrow> truthy (palletId c)) iv"

text \<open>The same of the single cell \<open>k\<close>: if it is there and occupied, its identifier is truthy.\<close>

definition hasPalletId :: "inventory \<Rightarrow> string \<Rightarrow> bool" where
  "hasPalletId iv k =
     (case map_of iv k of None \<Rightarrow> True | Some c \<Rightarrow> occupied c \<longrightarrow> truthy (palletId c))"

text \<open>
  The transfer as the specification words it: remove from the source, then store at the
  target; when the store fails the removal is rolled back, so the inventory is the one before
  the call. \<open>rnd\<close> is the random suffix the store step draws for its new identifier.
\<close>

definition transferSpec :: "string \<Rightarrow> inventory \<Rightarrow> string \<Rightarrow> string \<Rightarrow> bool \<times> inventory" where
  "transferSpec rnd iv sourceId targetId =
     (case removePallet iv sourceId of
        (None, iv1) \<Rightarrow> (False, iv1)
      | (Some p, iv1) \<Rightarrow>
          (case storePallet rnd iv1 targetId of
             (True, iv2) \<Rightarrow> (True, iv2)
           | (False, iv2) \<Rightarrow> (False, iv)))"

definition setPalletId :: "string \<Rightarrow> string option \<Rightarrow> inventory \<Rightarrow> inventory" where
  "setPalletId k p iv =
     (case map_of iv k of None \<Rightarrow> iv | Some c \<Rightarrow> AList.update k (c\<lparr>palletId := p\<rparr>) iv)"

text \<open>
  Two entries agree up to the operated-on keys \<open>ks\<close>: same key, same position fields, and
  the same cell unless the key is one of \<open>ks\<close>. \<open>frame\<close> compares two inventories entry by
  entry, in order.
\<close>

definition sameExcept :: "string list \<Rightarrow> string \<times> cell \<Rightarrow> string \<times> cell \<Rightarrow> bool" where
  "sameExcept ks e e' =
     (fst e' = fst e \<and> position (snd e') = position (snd e)
      \<and> (fst e \<notin> set ks \<longrightarrow> snd e' = snd e))"

definition frame :: "string list \<Rightarrow> inventory \<Rightarrow> inventory \<Rightarrow> bool" where
  "frame ks iv iv' = list_all2 (sameExcept ks) iv iv'"

subsection \<open>Example inventories\<close>

definition cellA :: cell where
  "cellA = \<lparr>occupied = True, palletId = Some ''PLT-AAAAAA'',
            block = 1, layer = 1, row = 0, depth = 0\<rparr>"

definition cellB :: cell where
  "cellB = \<lparr>occupied = False, palletId = None, block = 1, layer = 1, row = 1, depth = 0\<rparr>"

definition cellC :: cell where
  "cellC = \<lparr>occupied = True, palletId = Some ''PLT-CCCCCC'',
            block = 2, layer = 1, row = 0, depth = 0\<rparr>"

definition cellNoId :: cell where
  "cellNoId = \<lparr>occupied = True, palletId = None, block = 1, layer = 1, row = 0, depth = 0\<rparr>"

definition ivAB :: inventory where
  "ivAB = [(''B1-L1-R00-D0'', cellA), (''B1-L1-R01-D0'', cellB)]"

definition ivAC :: inventory where
  "ivAC = [(''B1-L1-R00-D0'', cellA), (''B2-L1-R00-D0'', cellC)]"

definition ivABC :: inventory where
  "ivABC = [(''B1-L1-R00-D0'', cellA), (''B1-L1-R01-D0'', cellB), (''B2-L1-R00-D0'', cellC)]"

definition ivNoId :: inventory where
  "ivNoId = [(''B1-L1-R00-D0'', cellNoId), (''B1-L1-R01-D0'', cellB)]"

subsection \<open>Helper lemmas\<close>

lemma present_lookup:
  "palletIdsPresent iv \<Longrightarrow> map_of iv k = Some c \<Longrightarrow> occupied c \<Longrightarrow> truthy (palletId c)"
  unfolding palletIdsPresent_def
  by (induction iv) (auto split: if_splits)

lemma present_hasPalletId: "palletIdsPresent iv \<Longrightarrow> hasPalletId iv k"
  by (auto simp: hasPalletId_def split: option.splits dest: present_lookup)

lemma hasPalletId_lookup:
  "hasPalletId iv k \<Longrightarrow> map_of iv k = Some c \<Longrightarrow> occupied c \<Longrightarrow> truthy (palletId c)"
  by (simp add: hasPalletId_def)

lemma transfer_atomic_aux:
  assumes "hasPalletId iv s" "\<not> fst (transferPallet iv s t)"
  shows "snd (transferPallet iv s t) = iv"
proof (cases "map_of iv s")
  case None
  then show ?thesis by (simp add: transferPallet_def removePallet_def truthy_def)
next
  case (Some c)
  show ?thesis
  proof (cases "occupied c")
    case False
    with Some show ?thesis by (simp add: transferPallet_def removePallet_def truthy_def)
  next
    case True
    with assms(1) Some have tr: "truthy (palletId c)" by (rule_tac hasPalletId_lookup)
    have c_eq: "c\<lparr>occupied := True, palletId := palletId c\<rparr> = c" using True by simp
    from Some True tr assms(2) show ?thesis
      by (auto simp: transferPallet_def removePallet_def update_conv' update_twice
            update_same_value c_eq split: option.splits if_splits)
  qed
qed

lemma frame_refl: "frame ks iv iv"
  by (simp add: frame_def sameExcept_def list_all2_same)

lemma frame_trans: "frame ks iv iv' \<Longrightarrow> frame ks iv' iv'' \<Longrightarrow> frame ks iv iv''"
proof -
  have tr: "\<And>a b c. sameExcept ks a b \<Longrightarrow> sameExcept ks b c \<Longrightarrow> sameExcept ks a c"
    by (auto simp: sameExcept_def)
  assume "frame ks iv iv'" "frame ks iv' iv''"
  then show ?thesis
    unfolding frame_def
    using list_all2_trans[of "sameExcept ks" "sameExcept ks" "sameExcept ks" iv iv' iv''] tr
    by blast
qed

lemma frame_update:
  "map_of iv k = Some c \<Longrightarrow> position c' = position c \<Longrightarrow> k \<in> set ks
   \<Longrightarrow> frame ks iv (AList.update k c' iv)"
proof (induction iv)
  case Nil
  then show ?case by simp
next
  case (Cons e iv)
  show ?case
  proof (cases "fst e = k")
    case True
    with Cons.prems show ?thesis
      using frame_refl[of ks iv]
      by (cases e) (simp add: frame_def sameExcept_def)
  next
    case False
    with Cons show ?thesis
      by (cases e) (simp add: frame_def sameExcept_def)
  qed
qed

lemma frame_store: "frame [k] iv (snd (storePallet rnd iv k))"
  by (auto simp: storePallet_def frame_refl position_def intro!: frame_update
        split: option.splits)

lemma frame_remove: "k \<in> set ks \<Longrightarrow> frame ks iv (snd (removePallet iv k))"
  by (auto simp: removePallet_def frame_refl position_def intro!: frame_update
        split: option.splits)

lemma frame_transfer: "frame [s, t] iv (snd (transferPallet iv s t))"
proof -
  obtain pid iv1 where r: "removePallet iv s = (pid, iv1)" by (cases "removePallet iv s")
  have f1: "frame [s, t] iv iv1" using frame_remove[of s "[s, t]" iv] r by simp
  have f2: "frame [s, t] iv1 (snd (transferPallet iv s t))"
    using r
    by (auto simp: transferPallet_def frame_refl position_def intro!: frame_update
          split: option.splits)
  from f1 f2 show ?thesis by (rule frame_trans)
qed

lemma frame_keys: "frame ks iv iv' \<Longrightarrow> map fst iv' = map fst iv"
  unfolding frame_def
  by (induction iv iv' rule: list_all2_induct) (auto simp: sameExcept_def)

lemma frame_lookup:
  "frame ks iv iv' \<Longrightarrow> map_of iv k = Some c
   \<Longrightarrow> \<exists>c'. map_of iv' k = Some c' \<and> position c' = position c \<and> (k \<notin> set ks \<longrightarrow> c' = c)"
  unfolding frame_def
  by (induction iv iv' rule: list_all2_induct) (auto simp: sameExcept_def split: if_splits)

text \<open>The mutators keep the data invariant, so it holds of every inventory they produce.\<close>

lemma present_update:
  "palletIdsPresent iv \<Longrightarrow> (occupied c \<longrightarrow> truthy (palletId c))
   \<Longrightarrow> palletIdsPresent (AList.update k c iv)"
  unfolding palletIdsPresent_def
  by (induction iv) auto

lemma storePallet_keeps_invariant:
  "palletIdsPresent iv \<Longrightarrow> palletIdsPresent (snd (storePallet rnd iv k))"
  by (auto simp: storePallet_def generatePalletId_def truthy_def intro!: present_update
        split: option.splits)

lemma removePallet_keeps_invariant:
  "palletIdsPresent iv \<Longrightarrow> palletIdsPresent (snd (removePallet iv k))"
  by (auto simp: removePallet_def intro!: present_update split: option.splits)

lemma transferPallet_keeps_invariant:
  assumes "palletIdsPresent iv"
  shows "palletIdsPresent (snd (transferPallet iv s t))"
proof -
  obtain pid iv1 where r: "removePallet iv s = (pid, iv1)" by (cases "removePallet iv s")
  have "palletIdsPresent iv1" using removePallet_keeps_invariant[OF assms, of s] r by simp
  then show ?thesis
    using r by (auto simp: transferPallet_def intro!: present_update split: option.splits)
qed

subsection \<open>Claims about the mutators\<close>

text \<open>
  Claim C2 (atomicity of a failed transfer). For every inventory of the data model, that is,
  one in which each occupied cell carries a non-empty pallet identifier, and every pair of
  cell identifiers: whenever \<open>transferPallet\<close> returns false, the inventory at exit is
  exactly the inventory before the call; and when the target cell is missing or already
  occupied, the inventory at exit (so also the source cell's occupied flag and pallet
  identifier) is exactly as before. The initial inventory satisfies the invariant and the
  three mutators keep it (\<open>initializeInventory_invariant\<close>, \<open>storePallet_keeps_invariant\<close>,
  \<open>removePallet_keeps_invariant\<close>, \<open>transferPallet_keeps_invariant\<close>), so these are all the
  inventories the store ever passes.
\<close>

theorem transferPallet_atomic_on_failure:
  assumes "palletIdsPresent iv"
  shows "(\<not> fst (transferPallet iv s t) \<longrightarrow> snd (transferPallet iv s t) = iv)
       \<and> ((map_of iv t = None \<or> (\<exists>c. map_of iv t = Some c \<and> occupied c))
            \<longrightarrow> snd (transferPallet iv s t) = iv)"
proof (intro conjI impI)
  from assms have src: "hasPalletId iv s" by (rule present_hasPalletId)
  {
    assume "\<not> fst (transferPallet iv s t)"
    with src show "snd (transferPallet iv s t) = iv" by (rule transfer_atomic_aux)
  }
  assume tgt: "map_of iv t = None \<or> (\<exists>c. map_of iv t = Some c \<and> occupied c)"
  show "snd (transferPallet iv s t) = iv"
  proof (cases "fst (transferPallet iv s t)")
    case False
    with src show ?thesis by (rule transfer_atomic_aux)
  next
    case True
    then obtain c where c: "map_of iv s = Some c" "occupied c"
      by (auto simp: transferPallet_def removePallet_def truthy_def split: option.splits if_splits)
    have c_eq: "c\<lparr>occupied := True, palletId := palletId c\<rparr> = c" using c by simp
    from True c tgt show ?thesis
      by (auto simp: transferPallet_def removePallet_def update_conv' update_twice
            update_same_value c_eq split: option.splits if_splits)
  qed
qed

theorem transferPallet_atomic_on_failure_witness:
  "palletIdsPresent ivAC
   \<and> \<not> fst (transferPallet ivAC ''B1-L1-R00-D0'' ''B2-L1-R00-D0'')
   \<and> (\<exists>c. map_of ivAC ''B2-L1-R00-D0'' = Some c \<and> occupied c)
   \<and> snd (transferPallet ivAC ''B1-L1-R00-D0'' ''B2-L1-R00-D0'') = ivAC"
proof -
  have h: "palletIdsPresent ivAC"
    by (simp add: palletIdsPresent_def ivAC_def cellA_def cellC_def truthy_def)
  have f: "\<not> fst (transferPallet ivAC ''B1-L1-R00-D0'' ''B2-L1-R00-D0'')"
    by (simp add: transferPallet_def removePallet_def ivAC_def cellA_def cellC_def truthy_def)
  have o: "\<exists>c. map_of ivAC ''B2-L1-R00-D0'' = Some c \<and> occupied c"
    by (simp add: ivAC_def cellC_def)
  from transferPallet_atomic_on_failure[OF h, of "''B1-L1-R00-D0''" "''B2-L1-R00-D0''"] h f o
  show ?thesis by blast
qed

text \<open>
  Claim C6 (transfer against remove-then-store), as amended. For every inventory and every
  pair of cell identifiers such that the source cell, if occupied, carries a non-empty pallet
  identifier, \<open>transferPallet\<close> returns the same success or failure as the composition
  \<open>transferSpec\<close>, and its final inventory is the composition's, except that after a
  success the target holds the identifier that was removed from the source, not the freshly
  generated one of the store step.
\<close>

theorem transferPallet_moves_identifier:
  assumes "hasPalletId iv s"
  shows "fst (transferPallet iv s t) = fst (transferSpec rnd iv s t)
       \<and> snd (transferPallet iv s t) =
           (if fst (transferSpec rnd iv s t)
            then setPalletId t (fst (removePallet iv s)) (snd (transferSpec rnd iv s t))
            else snd (transferSpec rnd iv s t))
       \<and> (fst (transferPallet iv s t) \<longrightarrow>
            (\<exists>c. map_of (snd (transferPallet iv s t)) t = Some c
                 \<and> palletId c = fst (removePallet iv s)
                 \<and> truthy (palletId c)))"
proof (cases "map_of iv s")
  case None
  then show ?thesis
    by (simp add: transferPallet_def transferSpec_def removePallet_def truthy_def)
next
  case (Some c)
  show ?thesis
  proof (cases "occupied c")
    case False
    with Some show ?thesis
      by (simp add: transferPallet_def transferSpec_def removePallet_def truthy_def)
  next
    case True
    with assms(1) Some have tr: "truthy (palletId c)" by (rule_tac hasPalletId_lookup)
    then obtain p where p: "palletId c = Some p" "p \<noteq> []"
      by (auto simp: truthy_def split: option.splits)
    have c_eq: "c\<lparr>occupied := True, palletId := Some p\<rparr> = c" using True p by simp
    from Some True p show ?thesis
      by (auto simp: transferPallet_def transferSpec_def removePallet_def storePallet_def
            setPalletId_def truthy_def update_conv' update_twice update_same_value c_eq
          split: option.splits if_splits)
  qed
qed

theorem transferPallet_moves_identifier_witness:
  "hasPalletId ivAB ''B1-L1-R00-D0''
   \<and> fst (transferPallet ivAB ''B1-L1-R00-D0'' ''B1-L1-R01-D0'')
   \<and> fst (transferSpec ''BBBBBB'' ivAB ''B1-L1-R00-D0'' ''B1-L1-R01-D0'')
   \<and> (\<exists>c. map_of (snd (transferPallet ivAB ''B1-L1-R00-D0'' ''B1-L1-R01-D0'')) ''B1-L1-R01-D0''
            = Some c \<and> palletId c = Some ''PLT-AAAAAA'')"
proof -
  have h: "hasPalletId ivAB ''B1-L1-R00-D0''"
    by (simp add: hasPalletId_def ivAB_def cellA_def truthy_def)
  have r: "fst (removePallet ivAB ''B1-L1-R00-D0'') = Some ''PLT-AAAAAA''"
    by (simp add: removePallet_def ivAB_def cellA_def cellB_def)
  have f: "fst (transferSpec ''BBBBBB'' ivAB ''B1-L1-R00-D0'' ''B1-L1-R01-D0'')"
    by (simp add: transferSpec_def removePallet_def storePallet_def ivAB_def cellA_def cellB_def)
  from transferPallet_moves_identifier[OF h, of "''B1-L1-R01-D0''" "''BBBBBB''"]
    h r f
  show ?thesis by auto
qed

text \<open>
  The claim as stated fails: after a successful transfer the target's identifier is the one
  removed from the source, while remove-then-store would leave a fresh one there.
\<close>

theorem transferPallet_differs_from_remove_then_store:
  "map_of (snd (transferPallet ivAB ''B1-L1-R00-D0'' ''B1-L1-R01-D0'')) ''B1-L1-R01-D0''
     = Some (cellB\<lparr>occupied := True, palletId := Some ''PLT-AAAAAA''\<rparr>)
   \<and> map_of (snd (transferSpec ''BBBBBB'' ivAB ''B1-L1-R00-D0'' ''B1-L1-R01-D0'')) ''B1-L1-R01-D0''
     = Some (cellB\<lparr>occupied := True, palletId := Some ''PLT-BBBBBB''\<rparr>)
   \<and> fst (removePallet ivAB ''B1-L1-R00-D0'') = Some ''PLT-AAAAAA''
   \<and> snd (transferPallet ivAB ''B1-L1-R00-D0'' ''B1-L1-R01-D0'')
       \<noteq> snd (transferSpec ''BBBBBB'' ivAB ''B1-L1-R00-D0'' ''B1-L1-R01-D0'')"
  by (simp add: transferPallet_def transferSpec_def removePallet_def storePallet_def
        ivAB_def cellA_def cellB_def truthy_def generatePalletId_def)

text \<open>
  Claim C10 (frame of the mutators). \<open>storePallet\<close>, \<open>removePallet\<close> and
  \<open>transferPallet\<close> keep the list of cell identifiers and every cell's block, layer, row
  and depth; every cell other than the operated-on ones is unchanged; a \<open>storePallet\<close> that
  returns false leaves the map unchanged, and so does a \<open>removePallet\<close> that fails, that
  is, one whose cell is missing or empty (when an occupied cell carries a non-empty
  identifier, every call that returns null).
\<close>

theorem mutators_frame:
  "(map fst (snd (storePallet rnd iv k)) = map fst iv
    \<and> (\<forall>k' c. map_of iv k' = Some c \<longrightarrow>
          (\<exists>c'. map_of (snd (storePallet rnd iv k)) k' = Some c'
                \<and> position c' = position c \<and> (k' \<noteq> k \<longrightarrow> c' = c))))
   \<and> (map fst (snd (removePallet iv k)) = map fst iv
    \<and> (\<forall>k' c. map_of iv k' = Some c \<longrightarrow>
          (\<exists>c'. map_of (snd (removePallet iv k)) k' = Some c'
                \<and> position c' = position c \<and> (k' \<noteq> k \<longrightarrow> c' = c))))
   \<and> (map fst (snd (transferPallet iv s t)) = map fst iv
    \<and> (\<forall>k' c. map_of iv k' = Some c \<longrightarrow>
          (\<exists>c'. map_of (snd (transferPallet iv s t)) k' = Some c'
                \<and> position c' = position c \<and> (k' \<noteq> s \<and> k' \<noteq> t \<longrightarrow> c' = c))))
   \<and> (\<not> fst (storePallet rnd iv k) \<longrightarrow> snd (storePallet rnd iv k) = iv)
   \<and> ((\<forall>c. map_of iv k = Some c \<longrightarrow> \<not> occupied c) \<longrightarrow> removePallet iv k = (None, iv))
   \<and> (hasPalletId iv k \<longrightarrow> fst (removePallet iv k) = None \<longrightarrow> snd (removePallet iv k) = iv)"
proof -
  have st: "frame [k] iv (snd (storePallet rnd iv k))" by (rule frame_store)
  have rm: "frame [k] iv (snd (removePallet iv k))" by (rule frame_remove) simp
  have tr: "frame [s, t] iv (snd (transferPallet iv s t))" by (rule frame_transfer)
  have a: "map fst (snd (storePallet rnd iv k)) = map fst iv" using st by (rule frame_keys)
  have b: "map fst (snd (removePallet iv k)) = map fst iv" using rm by (rule frame_keys)
  have c: "map fst (snd (transferPallet iv s t)) = map fst iv" using tr by (rule frame_keys)
  have a': "\<forall>k' c. map_of iv k' = Some c \<longrightarrow>
          (\<exists>c'. map_of (snd (storePallet rnd iv k)) k' = Some c'
                \<and> position c' = position c \<and> (k' \<noteq> k \<longrightarrow> c' = c))"
    using frame_lookup[OF st] by fastforce
  have b': "\<forall>k' c. map_of iv k' = Some c \<longrightarrow>
          (\<exists>c'. map_of (snd (removePallet iv k)) k' = Some c'
                \<and> position c' = position c \<and> (k' \<noteq> k \<longrightarrow> c' = c))"
    using frame_lookup[OF rm] by fastforce
  have c': "\<forall>k' c. map_of iv k' = Some c \<longrightarrow>
          (\<exists>c'. map_of (snd (transferPallet iv s t)) k' = Some c'
                \<and> position c' = position c \<and> (k' \<noteq> s \<and> k' \<noteq> t \<longrightarrow> c' = c))"
    using frame_lookup[OF tr] by fastforce
  have d: "\<not> fst (storePallet rnd iv k) \<longrightarrow> snd (storePallet rnd iv k) = iv"
    by (simp add: storePallet_def split: option.splits)
  have e: "(\<forall>c. map_of iv k = Some c \<longrightarrow> \<not> occupied c) \<longrightarrow> removePallet iv k = (None, iv)"
    by (simp add: removePallet_def split: option.splits)
  have f: "hasPalletId iv k \<longrightarrow> fst (removePallet iv k) = None \<longrightarrow> snd (removePallet iv k) = iv"
    by (auto simp: removePallet_def truthy_def split: option.splits dest: hasPalletId_lookup)
  show ?thesis by (intro conjI a a' b b' c c' d e f)
qed

theorem mutators_frame_witness:
  "map_of ivABC ''B2-L1-R00-D0'' = Some cellC
   \<and> map_of (snd (storePallet ''XXXXXX'' ivABC ''B1-L1-R01-D0'')) ''B2-L1-R00-D0'' = Some cellC
   \<and> map_of (snd (removePallet ivABC ''B1-L1-R01-D0'')) ''B2-L1-R00-D0'' = Some cellC
   \<and> map_of (snd (transferPallet ivABC ''B1-L1-R00-D0'' ''B1-L1-R01-D0'')) ''B2-L1-R00-D0''
       = Some cellC
   \<and> \<not> fst (storePallet ''XXXXXX'' ivABC ''B2-L1-R00-D0'')
   \<and> snd (storePallet ''XXXXXX'' ivABC ''B2-L1-R00-D0'') = ivABC
   \<and> removePallet ivABC ''B1-L1-R01-D0'' = (None, ivABC)"
proof -
  have l: "map_of ivABC ''B2-L1-R00-D0'' = Some cellC" by (simp add: ivABC_def)
  have n: "\<not> fst (storePallet ''XXXXXX'' ivABC ''B2-L1-R00-D0'')"
    by (simp add: storePallet_def ivABC_def cellC_def)
  have e: "\<forall>c. map_of ivABC ''B1-L1-R01-D0'' = Some c \<longrightarrow> \<not> occupied c"
    by (simp add: ivABC_def cellB_def)
  note T1 = mutators_frame[of "''XXXXXX''" ivABC "''B1-L1-R01-D0''" "''B1-L1-R00-D0''" "''B1-L1-R01-D0''"]
  note T2 = mutators_frame[of "''XXXXXX''" ivABC "''B2-L1-R00-D0''" "''B1-L1-R00-D0''" "''B1-L1-R01-D0''"]
  from T1 l have s1: "\<exists>c'. map_of (snd (storePallet ''XXXXXX'' ivABC ''B1-L1-R01-D0'')) ''B2-L1-R00-D0'' = Some c'
                \<and> position c' = position cellC \<and> (''B2-L1-R00-D0'' \<noteq> ''B1-L1-R01-D0'' \<longrightarrow> c' = cellC)"
    by (elim conjE allE[of _ "''B2-L1-R00-D0''"] allE[of _ cellC]) simp
  from T1 l have s2: "\<exists>c'. map_of (snd (removePallet ivABC ''B1-L1-R01-D0'')) ''B2-L1-R00-D0'' = Some c'
                \<and> position c' = position cellC \<and> (''B2-L1-R00-D0'' \<noteq> ''B1-L1-R01-D0'' \<longrightarrow> c' = cellC)"
    by (elim conjE allE[of _ "''B2-L1-R00-D0''"] allE[of _ cellC]) simp
  from T1 l have s3: "\<exists>c'. map_of (snd (transferPallet ivABC ''B1-L1-R00-D0'' ''B1-L1-R01-D0'')) ''B2-L1-R00-D0'' = Some c'
                \<and> position c' = position cellC
                \<and> (''B2-L1-R00-D0'' \<noteq> ''B1-L1-R00-D0'' \<and> ''B2-L1-R00-D0'' \<noteq> ''B1-L1-R01-D0'' \<longrightarrow> c' = cellC)"
    by (elim conjE allE[of _ "''B2-L1-R00-D0''"] allE[of _ cellC]) simp
  from T2 n have s4: "snd (storePallet ''XXXXXX'' ivABC ''B2-L1-R00-D0'') = ivABC"
    by (elim conjE) simp
  from T1 e have s5: "removePallet ivABC ''B1-L1-R01-D0'' = (None, ivABC)"
    by (elim conjE) simp
  from s1 s2 s3 s4 s5 l n show ?thesis by auto
qed

section \<open>Cell identifiers and slot search\<close>

text \<open>
  Numbers are rendered as JavaScript renders integers: decimal digits, a leading minus sign
  for a negative one. \<open>padStart2\<close> is \<^verbatim>\<open>padStart(2, '0')\<close>. The cell identifier is the
  template \<^verbatim>\<open>B${block}-L${layer}-R${row.toString().padStart(2, '0')}-D${depth}\<close>.
\<close>

definition digitChar :: "nat \<Rightarrow> char" where
  "digitChar n = ''0123456789'' ! (n mod 10)"

fun natToString :: "nat \<Rightarrow> string" where
  "natToString n = (if n < 10 then [digitChar n] else natToString (n div 10) @ [digitChar n])"

declare natToString.simps [simp del]

definition toString :: "int \<Rightarrow> string" where
  "toString i = (if i < 0 then CHR ''-'' # natToString (nat (- i)) else natToString (nat i))"

definition padStart2 :: "string \<Rightarrow> string" where
  "padStart2 s = replicate (2 - length s) CHR ''0'' @ s"

definition cellIdOf :: "int \<Rightarrow> int \<Rightarrow> int \<Rightarrow> int \<Rightarrow> string" where
  "cellIdOf b l r d =
     ''B'' @ toString b @ ''-L'' @ toString l @ ''-R'' @ padStart2 (toString r) @ ''-D'' @ toString d"

text \<open>
  \<open>findNextEmptySlot\<close>: the outer loop runs the depth from the deepest position down to 0;
  at an existing, empty cell the inner loop \<open>isAccessibleFrom\<close> runs from depth 0 up to the
  cell and stops at the first existing, occupied cell in front of it.
\<close>

definition maxDepthOf :: "int \<Rightarrow> nat" where
  "maxDepthOf b = (if b = 1 then 2 else 7)"

function isAccessibleFrom :: "inventory \<Rightarrow> int \<Rightarrow> int \<Rightarrow> int \<Rightarrow> nat \<Rightarrow> nat \<Rightarrow> bool" where
  "isAccessibleFrom iv b l r dep d =
     (if d < dep then
        (case map_of iv (cellIdOf b l r (int d)) of
           None \<Rightarrow> isAccessibleFrom iv b l r dep (Suc d)
         | Some frontCell \<Rightarrow>
             if occupied frontCell then False else isAccessibleFrom iv b l r dep (Suc d))
      else True)"
  by pat_completeness auto
termination
  by (relation "measure (\<lambda>(iv, b, l, r, dep, d). dep - d)") auto

declare isAccessibleFrom.simps [simp del]

definition slotHere :: "inventory \<Rightarrow> int \<Rightarrow> int \<Rightarrow> int \<Rightarrow> nat \<Rightarrow> bool" where
  "slotHere iv b l r dep =
     (case map_of iv (cellIdOf b l r (int dep)) of
        None \<Rightarrow> False
      | Some c \<Rightarrow> \<not> occupied c \<and> isAccessibleFrom iv b l r dep 0)"

primrec scanDown :: "inventory \<Rightarrow> int \<Rightarrow> int \<Rightarrow> int \<Rightarrow> nat \<Rightarrow> (string \<times> nat) option" where
  "scanDown iv b l r 0 =
     (if slotHere iv b l r 0 then Some (cellIdOf b l r 0, 0) else None)"
| "scanDown iv b l r (Suc n) =
     (if slotHere iv b l r (Suc n) then Some (cellIdOf b l r (int (Suc n)), Suc n)
      else scanDown iv b l r n)"

definition findNextEmptySlot :: "inventory \<Rightarrow> int \<Rightarrow> int \<Rightarrow> int \<Rightarrow> (string \<times> nat) option" where
  "findNextEmptySlot iv b l r = scanDown iv b l r (maxDepthOf b)"

text \<open>
  The specification's notion: the cell at depth \<open>d\<close> exists and is empty, and no existing
  cell of the row at a smaller depth is occupied.
\<close>

definition accessibleEmpty :: "inventory \<Rightarrow> int \<Rightarrow> int \<Rightarrow> int \<Rightarrow> nat \<Rightarrow> bool" where
  "accessibleEmpty iv b l r d =
     ((\<exists>c. map_of iv (cellIdOf b l r (int d)) = Some c \<and> \<not> occupied c)
      \<and> (\<forall>d'<d. \<forall>c. map_of iv (cellIdOf b l r (int d')) = Some c \<longrightarrow> \<not> occupied c))"

text \<open>A three-deep row of block 1 (layer 1, row 5) with the given occupancy at depths 0, 1, 2.\<close>

definition rowCell :: "bool \<Rightarrow> int \<Rightarrow> cell" where
  "rowCell occ d =
     \<lparr>occupied = occ, palletId = (if occ then Some ''PLT-ITEM00'' else None),
      block = 1, layer = 1, row = 5, depth = d\<rparr>"

definition row3 :: "bool \<Rightarrow> bool \<Rightarrow> bool \<Rightarrow> inventory" where
  "row3 o0 o1 o2 =
     [(''B1-L1-R05-D0'', rowCell o0 0), (''B1-L1-R05-D1'', rowCell o1 1),
      (''B1-L1-R05-D2'', rowCell o2 2)]"

subsection \<open>Correctness of the empty-slot search\<close>

lemma natToString_digit: "n < 10 \<Longrightarrow> natToString n = [digitChar n]"
  by (simp add: natToString.simps)

lemma isAccessibleFrom_iff:
  "isAccessibleFrom iv b l r dep d
   \<longleftrightarrow> (\<forall>d'. d \<le> d' \<and> d' < dep \<longrightarrow> (\<forall>c. map_of iv (cellIdOf b l r (int d')) = Some c \<longrightarrow> \<not> occupied c))"
proof (induction iv b l r dep d rule: isAccessibleFrom.induct)
  case (1 iv b l r dep d)
  show ?case
  proof (cases "d < dep")
    case False
    then show ?thesis by (subst isAccessibleFrom.simps) auto
  next
    case True
    have split: "\<And>P. (\<forall>d'. d \<le> d' \<and> d' < dep \<longrightarrow> P d')
                   \<longleftrightarrow> P d \<and> (\<forall>d'. Suc d \<le> d' \<and> d' < dep \<longrightarrow> P d')"
    proof -
      fix P :: "nat \<Rightarrow> bool"
      have "\<And>d'. d \<le> d' \<longleftrightarrow> d' = d \<or> Suc d \<le> d'" by auto
      with True show "(\<forall>d'. d \<le> d' \<and> d' < dep \<longrightarrow> P d')
                   \<longleftrightarrow> P d \<and> (\<forall>d'. Suc d \<le> d' \<and> d' < dep \<longrightarrow> P d')"
        by auto
    qed
    show ?thesis
    proof (cases "map_of iv (cellIdOf b l r (int d))")
      case None
      with True 1(1) show ?thesis
        by (subst isAccessibleFrom.simps, subst split) simp
    next
      case (Some c)
      with True 1(2) show ?thesis
        by (subst isAccessibleFrom.simps, subst split) simp
    qed
  qed
qed

lemma slotHere_iff: "slotHere iv b l r d \<longleftrightarrow> accessibleEmpty iv b l r d"
  by (auto simp: slotHere_def accessibleEmpty_def isAccessibleFrom_iff split: option.splits)

lemma scanDown_Some:
  "scanDown iv b l r n = Some (cid, d)
   \<longleftrightarrow> d \<le> n \<and> cid = cellIdOf b l r (int d) \<and> slotHere iv b l r d
       \<and> (\<forall>d'. d < d' \<and> d' \<le> n \<longrightarrow> \<not> slotHere iv b l r d')"
proof (induction n)
  case 0
  then show ?case by auto
next
  case (Suc n)
  show ?case
  proof (cases "slotHere iv b l r (Suc n)")
    case True
    then show ?thesis
      by (auto simp: not_less_eq_eq le_Suc_eq)
  next
    case False
    then show ?thesis
      using Suc by (auto simp: le_Suc_eq)
  qed
qed

lemma scanDown_None:
  "scanDown iv b l r n = None \<longleftrightarrow> (\<forall>d\<le>n. \<not> slotHere iv b l r d)"
  by (induction n) (auto simp: le_Suc_eq)

text \<open>
  Claim C1. \<open>findNextEmptySlot\<close> returns the deepest cell, from the maximum depth of the block
  down to depth 0, that is empty and has every cell at a smaller depth empty; it returns null
  exactly when the row has no such cell, also when empty cells lie behind an occupied one. The
  six three-deep rows of the specification give D2, D1, D0, null, null, null.
\<close>

theorem findNextEmptySlot_deepest_accessible:
  "(findNextEmptySlot iv b l r = Some (cid, d)
      \<longleftrightarrow> d \<le> maxDepthOf b \<and> cid = cellIdOf b l r (int d) \<and> accessibleEmpty iv b l r d
          \<and> (\<forall>d'. d < d' \<and> d' \<le> maxDepthOf b \<longrightarrow> \<not> accessibleEmpty iv b l r d'))
   \<and> (findNextEmptySlot iv b l r = None
      \<longleftrightarrow> (\<forall>d\<le>maxDepthOf b. \<not> accessibleEmpty iv b l r d))
   \<and> findNextEmptySlot (row3 False False False) 1 1 5 = Some (''B1-L1-R05-D2'', 2)
   \<and> findNextEmptySlot (row3 False False True) 1 1 5 = Some (''B1-L1-R05-D1'', 1)
   \<and> findNextEmptySlot (row3 False True True) 1 1 5 = Some (''B1-L1-R05-D0'', 0)
   \<and> findNextEmptySlot (row3 True False False) 1 1 5 = None
   \<and> findNextEmptySlot (row3 True True False) 1 1 5 = None
   \<and> findNextEmptySlot (row3 True False True) 1 1 5 = None"
proof (intro conjI)
  show "findNextEmptySlot iv b l r = Some (cid, d)
      \<longleftrightarrow> d \<le> maxDepthOf b \<and> cid = cellIdOf b l r (int d) \<and> accessibleEmpty iv b l r d
          \<and> (\<forall>d'. d < d' \<and> d' \<le> maxDepthOf b \<longrightarrow> \<not> accessibleEmpty iv b l r d')"
    unfolding findNextEmptySlot_def scanDown_Some slotHere_iff ..
  show "findNextEmptySlot iv b l r = None
      \<longleftrightarrow> (\<forall>d\<le>maxDepthOf b. \<not> accessibleEmpty iv b l r d)"
    unfolding findNextEmptySlot_def scanDown_None slotHere_iff ..
qed code_simp+

theorem findNextEmptySlot_deepest_accessible_witness:
  "findNextEmptySlot (row3 True False False) 1 1 5 = None
   \<and> \<not> accessibleEmpty (row3 True False False) 1 1 5 2
   \<and> \<not> accessibleEmpty (row3 True False False) 1 1 5 1
   \<and> findNextEmptySlot (row3 False False True) 1 1 5 = Some (''B1-L1-R05-D1'', 1)
   \<and> accessibleEmpty (row3 False False True) 1 1 5 1"
proof -
  note T1 = findNextEmptySlot_deepest_accessible[of "row3 True False False" 1 1 5 "''''" 0]
  note T2 = findNextEmptySlot_deepest_accessible[of "row3 False False True" 1 1 5 "''B1-L1-R05-D1''" 1]
  have m: "maxDepthOf 1 = 2" by (simp add: maxDepthOf_def)
  from T1 have n: "findNextEmptySlot (row3 True False False) 1 1 5 = None" by (elim conjE)
  from T1 have "findNextEmptySlot (row3 True False False) 1 1 5 = None
      \<longleftrightarrow> (\<forall>d\<le>maxDepthOf 1. \<not> accessibleEmpty (row3 True False False) 1 1 5 d)" by (elim conjE)
  with n m have a: "\<forall>d\<le>2. \<not> accessibleEmpty (row3 True False False) 1 1 5 d" by simp
  from T2 have s: "findNextEmptySlot (row3 False False True) 1 1 5 = Some (''B1-L1-R05-D1'', 1)"
    by (elim conjE)
  from T2 have "findNextEmptySlot (row3 False False True) 1 1 5 = Some (''B1-L1-R05-D1'', 1)
      \<longleftrightarrow> 1 \<le> maxDepthOf 1 \<and> ''B1-L1-R05-D1'' = cellIdOf 1 1 5 (int 1)
          \<and> accessibleEmpty (row3 False False True) 1 1 5 1
          \<and> (\<forall>d'. 1 < d' \<and> d' \<le> maxDepthOf 1 \<longrightarrow> \<not> accessibleEmpty (row3 False False True) 1 1 5 d')"
    by (elim conjE)
  with s have b: "accessibleEmpty (row3 False False True) 1 1 5 1" by simp
  from n a s b show ?thesis by simp
qed

section \<open>Task generator: the estimated time of arrival\<close>

definition calculateETA :: "int \<Rightarrow> int \<Rightarrow> string" where
  "calculateETA fromRow toRow =
     (let distance = \<bar>toRow - fromRow\<bar>;
          seconds = distance * 10 + 60;
          minutes = \<lceil>real_of_int seconds / 60\<rceil>
      in ''~'' @ toString minutes @ '' min'')"

lemma ceiling_sixty:
  fixes s :: int
  shows "\<lceil>real_of_int s / 60\<rceil> = - ((- s) div 60)"
  using ceiling_divide_eq_div[of s 60] by simp

text \<open>
  Claim C9. \<open>calculateETA\<close> returns \<^verbatim>\<open>~{minutes} min\<close> where \<open>minutes\<close> is the ceiling of
  \<open>(|toRow - fromRow| * 10 + 60) / 60\<close>, the least whole number of minutes covering the
  seconds; distance 0 gives \<^verbatim>\<open>~1 min\<close> and distance 12 gives \<^verbatim>\<open>~3 min\<close>.
\<close>

theorem calculateETA_minutes:
  "calculateETA fromRow toRow
     = ''~'' @ toString \<lceil>real_of_int (\<bar>toRow - fromRow\<bar> * 10 + 60) / 60\<rceil> @ '' min''
   \<and> (\<exists>m. calculateETA fromRow toRow = ''~'' @ toString m @ '' min''
          \<and> 60 * (m - 1) < \<bar>toRow - fromRow\<bar> * 10 + 60
          \<and> \<bar>toRow - fromRow\<bar> * 10 + 60 \<le> 60 * m)
   \<and> calculateETA fromRow fromRow = ''~1 min''
   \<and> calculateETA fromRow (fromRow + 12) = ''~3 min''
   \<and> calculateETA (fromRow + 12) fromRow = ''~3 min''"
proof (intro conjI)
  show g: "calculateETA fromRow toRow
     = ''~'' @ toString \<lceil>real_of_int (\<bar>toRow - fromRow\<bar> * 10 + 60) / 60\<rceil> @ '' min''"
    by (simp add: calculateETA_def Let_def)
  define m where "m = \<lceil>real_of_int (\<bar>toRow - fromRow\<bar> * 10 + 60) / 60\<rceil>"
  have m': "m = - ((- (\<bar>toRow - fromRow\<bar> * 10 + 60)) div 60)"
    unfolding m_def by (rule ceiling_sixty)
  have "60 * (m - 1) < \<bar>toRow - fromRow\<bar> * 10 + 60 \<and> \<bar>toRow - fromRow\<bar> * 10 + 60 \<le> 60 * m"
    unfolding m' by presburger
  with g show "\<exists>m. calculateETA fromRow toRow = ''~'' @ toString m @ '' min''
          \<and> 60 * (m - 1) < \<bar>toRow - fromRow\<bar> * 10 + 60
          \<and> \<bar>toRow - fromRow\<bar> * 10 + 60 \<le> 60 * m"
    unfolding m_def by blast
  show "calculateETA fromRow fromRow = ''~1 min''"
    by (simp add: calculateETA_def toString_def natToString_digit digitChar_def)
  show "calculateETA fromRow (fromRow + 12) = ''~3 min''"
    by (simp add: calculateETA_def toString_def natToString_digit digitChar_def)
  show "calculateETA (fromRow + 12) fromRow = ''~3 min''"
    by (simp add: calculateETA_def toString_def natToString_digit digitChar_def)
qed

theorem calculateETA_minutes_witness:
  "calculateETA 14 14 = ''~1 min'' \<and> calculateETA 14 26 = ''~3 min''
   \<and> calculateETA 14 2 = ''~3 min''"
  using calculateETA_minutes[of 14 14, THEN conjunct2, THEN conjunct2]
    calculateETA_minutes[of 2 14, THEN conjunct2, THEN conjunct2]
  by simp

section \<open>Slot search for picking and the optimal locations\<close>

text \<open>
  \<open>findNextOccupiedSlot\<close> runs the depth from 0 up to the maximum depth of the block and
  returns the first existing, occupied cell with its pallet identifier.
\<close>

function scanUp ::
  "inventory \<Rightarrow> int \<Rightarrow> int \<Rightarrow> int \<Rightarrow> nat \<Rightarrow> nat \<Rightarrow> (string \<times> nat \<times> string option) option" where
  "scanUp iv b l r maxDepth dep =
     (if dep \<le> maxDepth then
        (case map_of iv (cellIdOf b l r (int dep)) of
           None \<Rightarrow> scanUp iv b l r maxDepth (Suc dep)
         | Some c \<Rightarrow>
             if occupied c then Some (cellIdOf b l r (int dep), dep, palletId c)
             else scanUp iv b l r maxDepth (Suc dep))
      else None)"
  by pat_completeness auto
termination
  by (relation "measure (\<lambda>(iv, b, l, r, maxDepth, dep). Suc maxDepth - dep)") auto

declare scanUp.simps [simp del]

definition findNextOccupiedSlot ::
  "inventory \<Rightarrow> int \<Rightarrow> int \<Rightarrow> int \<Rightarrow> (string \<times> nat \<times> string option) option" where
  "findNextOccupiedSlot iv b l r = scanUp iv b l r (maxDepthOf b) 0"

text \<open>
  The objects \<open>findOptimalStorageLocation\<close> and \<open>findOptimalPickLocation\<close> return:
  \<^verbatim>\<open>{block, layer, row, cellId}\<close>, with \<^verbatim>\<open>palletId\<close> for a pick location.
\<close>

record storageLocation =
  loc_block :: int
  loc_layer :: int
  loc_row :: int
  loc_cellId :: string

record pickLocation = storageLocation +
  loc_palletId :: "string option"

text \<open>
  A \<^verbatim>\<open>for ... of\<close> loop whose body returns at the first hit: the first element of the list
  on which the body yields a result.
\<close>

primrec firstSome :: "('a \<Rightarrow> 'b option) \<Rightarrow> 'a list \<Rightarrow> 'b option" where
  "firstSome f [] = None"
| "firstSome f (x # xs) = (case f x of Some y \<Rightarrow> Some y | None \<Rightarrow> firstSome f xs)"

text \<open>
  \<^verbatim>\<open>preferredBlock ? [preferredBlock] : [1, 2]\<close>: a missing preferred block and the falsy
  number 0 both give both blocks. The rows of block 1 leave out the elevator row 14.
\<close>

definition blocksFor :: "int option \<Rightarrow> int list" where
  "blocksFor preferredBlock =
     (case preferredBlock of
        None \<Rightarrow> [1, 2]
      | Some pb \<Rightarrow> if pb = 0 then [1, 2] else [pb])"

definition rowsOf :: "int \<Rightarrow> int list" where
  "rowsOf b = (if b = 1 then filter (\<lambda>r. r \<noteq> 14) [0..23] else [0..23])"

text \<open>
  \<^verbatim>\<open>rows.sort(() => Math.random() - 0.5)\<close> reorders the rows at random. The order it
  produces for the rows of a given layer and block is a parameter of the search (a
  \<open>shuffler\<close>); the theorems about the search assume only that it returns the same rows in
  some order. The layers are tried in increasing order, then the blocks, then the shuffled
  rows; the first row with a slot wins.
\<close>

type_synonym shuffler = "int \<Rightarrow> int \<Rightarrow> int list \<Rightarrow> int list"

definition findOptimalStorageLocation ::
  "shuffler \<Rightarrow> inventory \<Rightarrow> int option \<Rightarrow> storageLocation option" where
  "findOptimalStorageLocation sh iv preferredBlock =
     firstSome (\<lambda>l.
       firstSome (\<lambda>b.
         firstSome (\<lambda>r.
           case findNextEmptySlot iv b l r of
             None \<Rightarrow> None
           | Some slot \<Rightarrow>
               Some \<lparr>loc_block = b, loc_layer = l, loc_row = r, loc_cellId = fst slot\<rparr>)
           (sh l b (rowsOf b)))
         (blocksFor preferredBlock))
       [1, 2, 3, 4, 5, 6, 7]"

definition findOptimalPickLocation ::
  "shuffler \<Rightarrow> inventory \<Rightarrow> int option \<Rightarrow> pickLocation option" where
  "findOptimalPickLocation sh iv preferredBlock =
     firstSome (\<lambda>l.
       firstSome (\<lambda>b.
         firstSome (\<lambda>r.
           case findNextOccupiedSlot iv b l r of
             None \<Rightarrow> None
           | Some slot \<Rightarrow>
               Some \<lparr>loc_block = b, loc_layer = l, loc_row = r, loc_cellId = fst slot,
                     loc_palletId = snd (snd slot)\<rparr>)
           (sh l b (rowsOf b)))
         (blocksFor preferredBlock))
       [1, 2, 3, 4, 5, 6, 7]"

section \<open>Task generator\<close>

datatype taskType = INBOUND | OUTBOUND | TRANSFER

datatype taskStatus = Pending | InProgress | Completed | Failed

record task =
  task_id :: string
  shuttleId :: string
  sourceBin :: string
  targetBin :: string
  task_type :: taskType
  status :: taskStatus
  eta :: string

text \<open>
  \<open>selectTaskType\<close>: the \<^verbatim>\<open>forEach\<close> loop counts the cells and the occupied cells
  (\<open>countCells\<close>, the pair \<open>(total, occupied)\<close>); \<open>rnd\<close> is the one \<^verbatim>\<open>Math.random()\<close> draw
  of the branch taken. Numbers are real numbers: the quotient, the draw and the literals
  0.3, 0.8, 0.7, 0.9, 0.4 are compared exactly.
\<close>

primrec countCells :: "inventory \<Rightarrow> nat \<times> nat \<Rightarrow> nat \<times> nat" where
  "countCells [] acc = acc"
| "countCells (e # es) acc =
     countCells es (fst acc + 1, if occupied (snd e) then snd acc + 1 else snd acc)"

definition selectTaskType :: "real \<Rightarrow> inventory \<Rightarrow> taskType" where
  "selectTaskType rnd iv =
     (let (total, occ) = countCells iv (0, 0);
          utilizationRate = (if total > 0 then real occ / real total else 0)
      in if utilizationRate < 0.3 then
           (if rnd < 0.7 then INBOUND else if rnd < 0.9 then TRANSFER else OUTBOUND)
         else if utilizationRate > 0.8 then
           (if rnd < 0.7 then OUTBOUND else if rnd < 0.9 then TRANSFER else INBOUND)
         else
           (if rnd < 0.4 then INBOUND else if rnd < 0.8 then OUTBOUND else TRANSFER))"

definition aisleBin :: "int \<Rightarrow> string" where
  "aisleBin shuttleLayer = ''AISLE-L'' @ toString shuttleLayer @ ''-R14''"

definition generateInboundTask ::
  "shuffler \<Rightarrow> string \<Rightarrow> string \<Rightarrow> int \<Rightarrow> inventory \<Rightarrow> task option" where
  "generateInboundTask sh taskId sid shuttleLayer iv =
     (case findOptimalStorageLocation sh iv None of
        None \<Rightarrow> None
      | Some targetLocation \<Rightarrow>
          Some \<lparr>task_id = taskId, shuttleId = sid, sourceBin = aisleBin shuttleLayer,
                targetBin = loc_cellId targetLocation, task_type = INBOUND, status = Pending,
                eta = calculateETA 14 (loc_row targetLocation)\<rparr>)"

definition generateOutboundTask ::
  "shuffler \<Rightarrow> string \<Rightarrow> string \<Rightarrow> int \<Rightarrow> inventory \<Rightarrow> task option" where
  "generateOutboundTask sh taskId sid shuttleLayer iv =
     (case findOptimalPickLocation sh iv None of
        None \<Rightarrow> None
      | Some sourceLocation \<Rightarrow>
          Some \<lparr>task_id = taskId, shuttleId = sid, sourceBin = loc_cellId sourceLocation,
                targetBin = aisleBin shuttleLayer, task_type = OUTBOUND, status = Pending,
                eta = calculateETA (loc_row sourceLocation) 14\<rparr>)"

text \<open>\<^verbatim>\<open>a || b\<close> on location objects, which are truthy whenever present.\<close>

definition orElse :: "'a option \<Rightarrow> 'a option \<Rightarrow> 'a option" where
  "orElse a b = (case a of Some x \<Rightarrow> Some x | None \<Rightarrow> b)"

text \<open>
  \<open>generateTransferTask\<close> makes up to four searches; \<open>shs k\<close> is the shuffler of the
  \<open>k\<close>-th one (0: pick in block 2, 1: pick in block 1, 2: store in the preferred block,
  3: store in any block).
\<close>

definition generateTransferTask ::
  "(nat \<Rightarrow> shuffler) \<Rightarrow> string \<Rightarrow> string \<Rightarrow> int \<Rightarrow> inventory \<Rightarrow> task option" where
  "generateTransferTask shs taskId sid shuttleLayer iv =
     (case orElse (findOptimalPickLocation (shs 0) iv (Some 2))
                  (findOptimalPickLocation (shs 1) iv (Some 1)) of
        None \<Rightarrow> None
      | Some sourceLocation \<Rightarrow>
          let preferredTargetBlock = (if loc_block sourceLocation = 1 then 2 else 1) in
          (case orElse (findOptimalStorageLocation (shs 2) iv (Some preferredTargetBlock))
                       (findOptimalStorageLocation (shs 3) iv None) of
             None \<Rightarrow> None
           | Some targetLocation \<Rightarrow>
               Some \<lparr>task_id = taskId, shuttleId = sid,
                     sourceBin = loc_cellId sourceLocation,
                     targetBin = loc_cellId targetLocation, task_type = TRANSFER,
                     status = Pending,
                     eta = calculateETA (loc_row sourceLocation) (loc_row targetLocation)\<rparr>))"

text \<open>
  Everything \<open>generateIntelligentTask\<close> and \<open>completeNextTask\<close> draw at random or read from
  the clock: the draw of \<open>selectTaskType\<close>, the two random parts of the task identifier
  \<^verbatim>\<open>TSK-<time>-<random>\<close>, the shufflers, and the suffix of a new pallet identifier.
\<close>

record randomness =
  rand :: real
  taskStamp :: string
  taskSuffix :: string
  shuffles :: "nat \<Rightarrow> shuffler"
  palletSuffix :: string

definition generateIntelligentTask ::
  "randomness \<Rightarrow> inventory \<Rightarrow> string \<Rightarrow> int \<Rightarrow> task option" where
  "generateIntelligentTask rng iv sid shuttleLayer =
     (let taskType = selectTaskType (rand rng) iv;
          taskId = ''TSK-'' @ taskStamp rng @ ''-'' @ taskSuffix rng
      in case taskType of
           INBOUND \<Rightarrow> generateInboundTask (shuffles rng 0) taskId sid shuttleLayer iv
         | OUTBOUND \<Rightarrow> generateOutboundTask (shuffles rng 0) taskId sid shuttleLayer iv
         | TRANSFER \<Rightarrow> generateTransferTask (shuffles rng) taskId sid shuttleLayer iv)"

definition shouldGenerateNewTask :: "task list \<Rightarrow> bool" where
  "shouldGenerateNewTask ts =
     (length (filter (\<lambda>t. status t = Pending \<or> status t = InProgress) ts) < 2)"

text \<open>A shuffler for the examples: the rows as they are.\<close>

definition keepOrder :: "nat \<Rightarrow> shuffler" where
  "keepOrder k l b rows = rows"

subsection \<open>Statistics\<close>

record stats =
  st_total :: nat
  st_occupied :: nat
  st_empty :: nat
  st_utilizationRate :: real

primrec countBlockCells :: "int \<Rightarrow> inventory \<Rightarrow> nat \<times> nat \<Rightarrow> nat \<times> nat" where
  "countBlockCells b [] acc = acc"
| "countBlockCells b (e # es) acc =
     countBlockCells b es
       (if block (snd e) = b
        then (fst acc + 1, if occupied (snd e) then snd acc + 1 else snd acc)
        else acc)"

definition mkStats :: "nat \<times> nat \<Rightarrow> stats" where
  "mkStats c =
     \<lparr>st_total = fst c, st_occupied = snd c, st_empty = fst c - snd c,
      st_utilizationRate = (if fst c > 0 then (real (snd c) / real (fst c)) * 100 else 0)\<rparr>"

definition getInventoryStats :: "inventory \<Rightarrow> stats" where
  "getInventoryStats iv = mkStats (countCells iv (0, 0))"

definition getBlockStats :: "inventory \<Rightarrow> int \<Rightarrow> stats" where
  "getBlockStats iv b = mkStats (countBlockCells b iv (0, 0))"

subsection \<open>What the searches can find\<close>

text \<open>
  A block is \<open>storableIn\<close> when some row of it, on some layer 1 to 7, has an accessible empty
  slot, and \<open>pickableIn\<close> when some row has an occupied slot. \<open>permuting\<close> says that every
  shuffler returns the rows it was given, in some order.
\<close>

definition storableIn :: "inventory \<Rightarrow> int \<Rightarrow> bool" where
  "storableIn iv b =
     (\<exists>l\<in>{1..7}. \<exists>r\<in>set (rowsOf b). findNextEmptySlot iv b l r \<noteq> None)"

definition pickableIn :: "inventory \<Rightarrow> int \<Rightarrow> bool" where
  "pickableIn iv b =
     (\<exists>l\<in>{1..7}. \<exists>r\<in>set (rowsOf b). findNextOccupiedSlot iv b l r \<noteq> None)"

definition permuting :: "(nat \<Rightarrow> shuffler) \<Rightarrow> bool" where
  "permuting shs = (\<forall>k l b xs. set (shs k l b xs) = set xs)"

lemma firstSome_None: "firstSome f xs = None \<longleftrightarrow> (\<forall>x\<in>set xs. f x = None)"
  by (induction xs) (auto split: option.splits)

lemma firstSome_Some: "firstSome f xs = Some y \<Longrightarrow> \<exists>x\<in>set xs. f x = Some y"
  by (induction xs) (auto split: option.splits)

lemma case_option_None_iff:
  "(case x of None \<Rightarrow> None | Some v \<Rightarrow> Some (g v)) = None \<longleftrightarrow> x = None"
  by (cases x) auto

lemma layers_set: "set [1, 2, 3, 4, 5, 6, 7::int] = {1..7}"
  by auto

lemma storage_None:
  assumes "\<forall>l b xs. set (sh l b xs) = set xs"
  shows "findOptimalStorageLocation sh iv pb = None
         \<longleftrightarrow> (\<forall>b\<in>set (blocksFor pb). \<not> storableIn iv b)"
proof -
  have rows: "\<And>l b. firstSome (\<lambda>r.
           case findNextEmptySlot iv b l r of
             None \<Rightarrow> None
           | Some slot \<Rightarrow>
               Some \<lparr>loc_block = b, loc_layer = l, loc_row = r, loc_cellId = fst slot\<rparr>)
           (sh l b (rowsOf b)) = None
        \<longleftrightarrow> (\<forall>r\<in>set (rowsOf b). findNextEmptySlot iv b l r = None)"
    unfolding firstSome_None using assms by (simp add: case_option_None_iff)
  have "findOptimalStorageLocation sh iv pb = None
        \<longleftrightarrow> (\<forall>l\<in>{1..7}. \<forall>b\<in>set (blocksFor pb). \<forall>r\<in>set (rowsOf b).
               findNextEmptySlot iv b l r = None)"
    unfolding findOptimalStorageLocation_def
    by (simp only: firstSome_None[of _ "[1, 2, 3, 4, 5, 6, 7]"] firstSome_None[of _ "blocksFor pb"]
          rows layers_set)
  then show ?thesis unfolding storableIn_def by auto
qed

lemma storage_Some:
  assumes "\<forall>l b xs. set (sh l b xs) = set xs"
    and "findOptimalStorageLocation sh iv pb = Some loc"
  shows "loc_block loc \<in> set (blocksFor pb) \<and> loc_layer loc \<in> {1..7}
         \<and> loc_row loc \<in> set (rowsOf (loc_block loc))
         \<and> (\<exists>d. findNextEmptySlot iv (loc_block loc) (loc_layer loc) (loc_row loc)
                  = Some (loc_cellId loc, d))"
proof -
  from assms(2) obtain l where l: "l \<in> {1..7}"
    and 1: "firstSome (\<lambda>b. firstSome (\<lambda>r.
           case findNextEmptySlot iv b l r of
             None \<Rightarrow> None
           | Some slot \<Rightarrow>
               Some \<lparr>loc_block = b, loc_layer = l, loc_row = r, loc_cellId = fst slot\<rparr>)
           (sh l b (rowsOf b))) (blocksFor pb) = Some loc"
    unfolding findOptimalStorageLocation_def
    by (metis (no_types, lifting) firstSome_Some layers_set)
  from firstSome_Some[OF 1] obtain b where b: "b \<in> set (blocksFor pb)"
    and 2: "firstSome (\<lambda>r.
           case findNextEmptySlot iv b l r of
             None \<Rightarrow> None
           | Some slot \<Rightarrow>
               Some \<lparr>loc_block = b, loc_layer = l, loc_row = r, loc_cellId = fst slot\<rparr>)
           (sh l b (rowsOf b)) = Some loc"
    by blast
  from firstSome_Some[OF 2] obtain r where r: "r \<in> set (sh l b (rowsOf b))"
    and 3: "(case findNextEmptySlot iv b l r of
             None \<Rightarrow> None
           | Some slot \<Rightarrow>
               Some \<lparr>loc_block = b, loc_layer = l, loc_row = r, loc_cellId = fst slot\<rparr>) = Some loc"
    by blast
  from r assms(1) have r': "r \<in> set (rowsOf b)" by simp
  from 3 obtain cid d where "findNextEmptySlot iv b l r = Some (cid, d)"
    and "loc = \<lparr>loc_block = b, loc_layer = l, loc_row = r, loc_cellId = cid\<rparr>"
    by (auto split: option.splits)
  with l b r' show ?thesis by simp
qed

lemma pick_None:
  assumes "\<forall>l b xs. set (sh l b xs) = set xs"
  shows "findOptimalPickLocation sh iv pb = None
         \<longleftrightarrow> (\<forall>b\<in>set (blocksFor pb). \<not> pickableIn iv b)"
proof -
  have rows: "\<And>l b. firstSome (\<lambda>r.
           case findNextOccupiedSlot iv b l r of
             None \<Rightarrow> None
           | Some slot \<Rightarrow>
               Some \<lparr>loc_block = b, loc_layer = l, loc_row = r, loc_cellId = fst slot,
                     loc_palletId = snd (snd slot)\<rparr>)
           (sh l b (rowsOf b)) = None
        \<longleftrightarrow> (\<forall>r\<in>set (rowsOf b). findNextOccupiedSlot iv b l r = None)"
    unfolding firstSome_None using assms by (simp add: case_option_None_iff)
  have "findOptimalPickLocation sh iv pb = None
        \<longleftrightarrow> (\<forall>l\<in>{1..7}. \<forall>b\<in>set (blocksFor pb). \<forall>r\<in>set (rowsOf b).
               findNextOccupiedSlot iv b l r = None)"
    unfolding findOptimalPickLocation_def
    by (simp only: firstSome_None[of _ "[1, 2, 3, 4, 5, 6, 7]"] firstSome_None[of _ "blocksFor pb"]
          rows layers_set)
  then show ?thesis unfolding pickableIn_def by auto
qed

lemma pick_Some:
  assumes "\<forall>l b xs. set (sh l b xs) = set xs"
    and "findOptimalPickLocation sh iv pb = Some loc"
  shows "loc_block loc \<in> set (blocksFor pb) \<and> loc_layer loc \<in> {1..7}
         \<and> loc_row loc \<in> set (rowsOf (loc_block loc))
         \<and> (\<exists>d. findNextOccupiedSlot iv (loc_block loc) (loc_layer loc) (loc_row loc)
                  = Some (loc_cellId loc, d, loc_palletId loc))"
proof -
  from assms(2) obtain l where l: "l \<in> {1..7}"
    and 1: "firstSome (\<lambda>b. firstSome (\<lambda>r.
           case findNextOccupiedSlot iv b l r of
             None \<Rightarrow> None
           | Some slot \<Rightarrow>
               Some \<lparr>loc_block = b, loc_layer = l, loc_row = r, loc_cellId = fst slot,
                     loc_palletId = snd (snd slot)\<rparr>)
           (sh l b (rowsOf b))) (blocksFor pb) = Some loc"
    unfolding findOptimalPickLocation_def
    by (metis (no_types, lifting) firstSome_Some layers_set)
  from firstSome_Some[OF 1] obtain b where b: "b \<in> set (blocksFor pb)"
    and 2: "firstSome (\<lambda>r.
           case findNextOccupiedSlot iv b l r of
             None \<Rightarrow> None
           | Some slot \<Rightarrow>
               Some \<lparr>loc_block = b, loc_layer = l, loc_row = r, loc_cellId = fst slot,
                     loc_palletId = snd (snd slot)\<rparr>)
           (sh l b (rowsOf b)) = Some loc"
    by blast
  from firstSome_Some[OF 2] obtain r where r: "r \<in> set (sh l b (rowsOf b))"
    and 3: "(case findNextOccupiedSlot iv b l r of
             None \<Rightarrow> None
           | Some slot \<Rightarrow>
               Some \<lparr>loc_block = b, loc_layer = l, loc_row = r, loc_cellId = fst slot,
                     loc_palletId = snd (snd slot)\<rparr>) = Some loc"
    by blast
  from r assms(1) have r': "r \<in> set (rowsOf b)" by simp
  from 3 obtain cid d p where "findNextOccupiedSlot iv b l r = Some (cid, d, p)"
    and "loc = \<lparr>loc_block = b, loc_layer = l, loc_row = r, loc_cellId = cid, loc_palletId = p\<rparr>"
    by (auto split: option.splits)
  with l b r' show ?thesis by simp
qed

lemma scanUp_Some:
  "scanUp iv b l r n dep = Some (cid, d, p)
   \<longleftrightarrow> dep \<le> d \<and> d \<le> n \<and> cid = cellIdOf b l r (int d)
       \<and> (\<exists>c. map_of iv (cellIdOf b l r (int d)) = Some c \<and> occupied c \<and> palletId c = p)
       \<and> (\<forall>d'. dep \<le> d' \<and> d' < d \<longrightarrow>
             (\<forall>c. map_of iv (cellIdOf b l r (int d')) = Some c \<longrightarrow> \<not> occupied c))"
proof (induction iv b l r n dep rule: scanUp.induct)
  case (1 iv b l r n dep)
  show ?case
  proof (cases "dep \<le> n")
    case False
    then show ?thesis by (subst scanUp.simps) auto
  next
    case True
    note le = True
    show ?thesis
    proof (cases "\<exists>c. map_of iv (cellIdOf b l r (int dep)) = Some c \<and> occupied c")
      case True
      then obtain c where c: "map_of iv (cellIdOf b l r (int dep)) = Some c" "occupied c"
        by blast
      have res: "scanUp iv b l r n dep = Some (cellIdOf b l r (int dep), dep, palletId c)"
        using le c by (subst scanUp.simps) simp
      have first: "d = dep" if "dep \<le> d"
          and "\<forall>d'. dep \<le> d' \<and> d' < d \<longrightarrow>
             (\<forall>c. map_of iv (cellIdOf b l r (int d')) = Some c \<longrightarrow> \<not> occupied c)" for d
      proof (rule ccontr)
        assume "d \<noteq> dep"
        with that(1) have "dep < d" by simp
        with that(2) c show False by blast
      qed
      show ?thesis
      proof
        assume "scanUp iv b l r n dep = Some (cid, d, p)"
        with res have "cid = cellIdOf b l r (int dep)" "d = dep" "p = palletId c" by simp_all
        with c le show "dep \<le> d \<and> d \<le> n \<and> cid = cellIdOf b l r (int d)
          \<and> (\<exists>c. map_of iv (cellIdOf b l r (int d)) = Some c \<and> occupied c \<and> palletId c = p)
          \<and> (\<forall>d'. dep \<le> d' \<and> d' < d \<longrightarrow>
                (\<forall>c. map_of iv (cellIdOf b l r (int d')) = Some c \<longrightarrow> \<not> occupied c))"
          by auto
      next
        assume R: "dep \<le> d \<and> d \<le> n \<and> cid = cellIdOf b l r (int d)
          \<and> (\<exists>c. map_of iv (cellIdOf b l r (int d)) = Some c \<and> occupied c \<and> palletId c = p)
          \<and> (\<forall>d'. dep \<le> d' \<and> d' < d \<longrightarrow>
                (\<forall>c. map_of iv (cellIdOf b l r (int d')) = Some c \<longrightarrow> \<not> occupied c))"
        then have "d = dep" using first by blast
        with R c res show "scanUp iv b l r n dep = Some (cid, d, p)" by auto
      qed
    next
      case False
      then have step: "scanUp iv b l r n dep = scanUp iv b l r n (Suc dep)"
        using le by (subst scanUp.simps) (auto split: option.splits)
      have IH: "scanUp iv b l r n (Suc dep) = Some (cid, d, p)
         \<longleftrightarrow> Suc dep \<le> d \<and> d \<le> n \<and> cid = cellIdOf b l r (int d)
             \<and> (\<exists>c. map_of iv (cellIdOf b l r (int d)) = Some c \<and> occupied c \<and> palletId c = p)
             \<and> (\<forall>d'. Suc dep \<le> d' \<and> d' < d \<longrightarrow>
                   (\<forall>c. map_of iv (cellIdOf b l r (int d')) = Some c \<longrightarrow> \<not> occupied c))"
      proof (cases "map_of iv (cellIdOf b l r (int dep))")
        case None
        with le 1(1) show ?thesis by simp
      next
        case (Some c)
        with False have "\<not> occupied c" by simp
        with le Some 1(2) show ?thesis by simp
      qed
      have a: "\<And>d'. dep \<le> d' \<longleftrightarrow> d' = dep \<or> Suc dep \<le> d'" by auto
      show ?thesis
        unfolding step IH using False
        by (auto simp: a)
    qed
  qed
qed

lemma findNextOccupiedSlot_Some:
  "findNextOccupiedSlot iv b l r = Some (cid, d, p)
   \<longleftrightarrow> d \<le> maxDepthOf b \<and> cid = cellIdOf b l r (int d)
       \<and> (\<exists>c. map_of iv (cellIdOf b l r (int d)) = Some c \<and> occupied c \<and> palletId c = p)
       \<and> (\<forall>d'<d. \<forall>c. map_of iv (cellIdOf b l r (int d')) = Some c \<longrightarrow> \<not> occupied c)"
  unfolding findNextOccupiedSlot_def scanUp_Some by auto

subsection \<open>The choice of the task type\<close>

text \<open>The utilization: occupied cells over all cells of the inventory, 0 for an empty one.\<close>

definition utilization :: "inventory \<Rightarrow> real" where
  "utilization iv =
     (if length iv > 0
      then real (length (filter (\<lambda>e. occupied (snd e)) iv)) / real (length iv)
      else 0)"

lemma countCells_eq:
  "countCells iv acc
   = (fst acc + length iv, snd acc + length (filter (\<lambda>e. occupied (snd e)) iv))"
  by (induction iv arbitrary: acc) auto

lemma selectTaskType_unfold:
  "selectTaskType r iv =
     (if utilization iv < 0.3 then
        (if r < 0.7 then INBOUND else if r < 0.9 then TRANSFER else OUTBOUND)
      else if utilization iv > 0.8 then
        (if r < 0.7 then OUTBOUND else if r < 0.9 then TRANSFER else INBOUND)
      else
        (if r < 0.4 then INBOUND else if r < 0.8 then OUTBOUND else TRANSFER))"
  by (simp only: selectTaskType_def countCells_eq utilization_def Let_def prod.case
        fst_conv snd_conv add_0)

text \<open>
  Claim C4. \<open>selectTaskType\<close> takes the utilization as occupied over total (0 when there is no
  cell) and, for the draw \<open>r\<close>: below 0.30 it returns INBOUND iff \<open>r < 0.7\<close>, TRANSFER iff
  \<open>0.7 \<le> r < 0.9\<close>, OUTBOUND otherwise; above 0.80 it returns OUTBOUND iff \<open>r < 0.7\<close>,
  TRANSFER iff \<open>0.7 \<le> r < 0.9\<close>, INBOUND otherwise; in between it returns INBOUND iff
  \<open>r < 0.4\<close>, OUTBOUND iff \<open>0.4 \<le> r < 0.8\<close>, TRANSFER otherwise.
\<close>

theorem selectTaskType_distribution:
  "(utilization iv < 0.3 \<longrightarrow>
      (selectTaskType r iv = INBOUND \<longleftrightarrow> r < 0.7)
      \<and> (selectTaskType r iv = TRANSFER \<longleftrightarrow> 0.7 \<le> r \<and> r < 0.9)
      \<and> (selectTaskType r iv = OUTBOUND \<longleftrightarrow> 0.9 \<le> r))
   \<and> (utilization iv > 0.8 \<longrightarrow>
      (selectTaskType r iv = OUTBOUND \<longleftrightarrow> r < 0.7)
      \<and> (selectTaskType r iv = TRANSFER \<longleftrightarrow> 0.7 \<le> r \<and> r < 0.9)
      \<and> (selectTaskType r iv = INBOUND \<longleftrightarrow> 0.9 \<le> r))
   \<and> (0.3 \<le> utilization iv \<and> utilization iv \<le> 0.8 \<longrightarrow>
      (selectTaskType r iv = INBOUND \<longleftrightarrow> r < 0.4)
      \<and> (selectTaskType r iv = OUTBOUND \<longleftrightarrow> 0.4 \<le> r \<and> r < 0.8)
      \<and> (selectTaskType r iv = TRANSFER \<longleftrightarrow> 0.8 \<le> r))"
proof (intro conjI impI)
  assume "utilization iv < 0.3"
  then have s: "selectTaskType r iv
      = (if r < 0.7 then INBOUND else if r < 0.9 then TRANSFER else OUTBOUND)"
    by (simp add: selectTaskType_unfold)
  show "selectTaskType r iv = INBOUND \<longleftrightarrow> r < 0.7" unfolding s by simp
  show "selectTaskType r iv = TRANSFER \<longleftrightarrow> 0.7 \<le> r \<and> r < 0.9" unfolding s by simp
  show "selectTaskType r iv = OUTBOUND \<longleftrightarrow> 0.9 \<le> r" unfolding s by simp
next
  assume "utilization iv > 0.8"
  then have s: "selectTaskType r iv
      = (if r < 0.7 then OUTBOUND else if r < 0.9 then TRANSFER else INBOUND)"
    by (simp add: selectTaskType_unfold)
  show "selectTaskType r iv = OUTBOUND \<longleftrightarrow> r < 0.7" unfolding s by simp
  show "selectTaskType r iv = TRANSFER \<longleftrightarrow> 0.7 \<le> r \<and> r < 0.9" unfolding s by simp
  show "selectTaskType r iv = INBOUND \<longleftrightarrow> 0.9 \<le> r" unfolding s by simp
next
  assume "0.3 \<le> utilization iv \<and> utilization iv \<le> 0.8"
  then have s: "selectTaskType r iv
      = (if r < 0.4 then INBOUND else if r < 0.8 then OUTBOUND else TRANSFER)"
    by (simp add: selectTaskType_unfold)
  show "selectTaskType r iv = INBOUND \<longleftrightarrow> r < 0.4" unfolding s by simp
  show "selectTaskType r iv = OUTBOUND \<longleftrightarrow> 0.4 \<le> r \<and> r < 0.8" unfolding s by simp
  show "selectTaskType r iv = TRANSFER \<longleftrightarrow> 0.8 \<le> r" unfolding s by simp
qed

theorem selectTaskType_distribution_witness:
  "utilization (row3 False False False) < 0.3
   \<and> selectTaskType 0.75 (row3 False False False) = TRANSFER
   \<and> utilization ivAC > 0.8
   \<and> selectTaskType 0.5 ivAC = OUTBOUND
   \<and> 0.3 \<le> utilization ivAB \<and> utilization ivAB \<le> 0.8
   \<and> selectTaskType 0.95 ivAB = TRANSFER"
proof -
  have lo: "utilization (row3 False False False) < 0.3"
    by (simp add: utilization_def row3_def rowCell_def)
  have hi: "utilization ivAC > 0.8"
    by (simp add: utilization_def ivAC_def cellA_def cellC_def)
  have mid: "0.3 \<le> utilization ivAB \<and> utilization ivAB \<le> 0.8"
    by (simp add: utilization_def ivAB_def cellA_def cellB_def)
  from selectTaskType_distribution[of "row3 False False False" "0.75"] lo
  have a: "selectTaskType 0.75 (row3 False False False) = TRANSFER" by simp
  from selectTaskType_distribution[of ivAC "0.5"] hi
  have b: "selectTaskType 0.5 ivAC = OUTBOUND" by simp
  from selectTaskType_distribution[of ivAB "0.95"] mid
  have c: "selectTaskType 0.95 ivAB = TRANSFER" by simp
  from lo hi mid a b c show ?thesis by simp
qed

subsection \<open>The transfer task\<close>

lemma blocksFor_simps:
  "blocksFor None = [1, 2]" "blocksFor (Some 1) = [1]" "blocksFor (Some 2) = [2]"
  by (simp_all add: blocksFor_def)

text \<open>
  Claim C7, as amended. Whatever the shuffles, \<open>generateTransferTask\<close> takes its source from
  block 2 whenever block 2 has a pick location at all, and from block 1 only otherwise; the
  block is fixed in the code, not chosen by comparing how full the blocks are. The target is
  in the block opposite the source's when that block has an accessible empty slot, and in
  any block otherwise (then it is in the source's block). It returns null exactly when no
  block has a pick location or no block has an accessible empty slot.
\<close>

theorem generateTransferTask_prefers_block_two:
  assumes "permuting shs"
  shows "(generateTransferTask shs tid sid lay iv = None
            \<longleftrightarrow> (\<not> pickableIn iv 2 \<and> \<not> pickableIn iv 1)
                \<or> (\<not> storableIn iv 1 \<and> \<not> storableIn iv 2))
       \<and> (\<forall>t. generateTransferTask shs tid sid lay iv = Some t \<longrightarrow>
            (let sb = (if pickableIn iv 2 then 2 else 1);
                 ob = (if sb = 1 then 2 else 1);
                 tb = (if storableIn iv ob then ob else sb)
             in (\<exists>l r d p. l \<in> {1..7} \<and> r \<in> set (rowsOf sb)
                    \<and> findNextOccupiedSlot iv sb l r = Some (sourceBin t, d, p)
                    \<and> sourceBin t = cellIdOf sb l r (int d))
                \<and> (\<exists>l r d. l \<in> {1..7} \<and> r \<in> set (rowsOf tb)
                    \<and> findNextEmptySlot iv tb l r = Some (targetBin t, d)
                    \<and> targetBin t = cellIdOf tb l r (int d))
                \<and> task_type t = TRANSFER \<and> status t = Pending
                \<and> shuttleId t = sid \<and> task_id t = tid))"
proof -
  have sh: "\<And>k. \<forall>l b xs. set (shs k l b xs) = set xs"
    using assms by (simp add: permuting_def)
  have p2: "findOptimalPickLocation (shs 0) iv (Some 2) = None \<longleftrightarrow> \<not> pickableIn iv 2"
    by (simp add: pick_None[OF sh] blocksFor_simps)
  have p1: "findOptimalPickLocation (shs 1) iv (Some 1) = None \<longleftrightarrow> \<not> pickableIn iv 1"
    by (simp add: pick_None[OF sh] blocksFor_simps)
  have s1: "findOptimalStorageLocation (shs 2) iv (Some 1) = None \<longleftrightarrow> \<not> storableIn iv 1"
    by (simp add: storage_None[OF sh] blocksFor_simps)
  have s2: "findOptimalStorageLocation (shs 2) iv (Some 2) = None \<longleftrightarrow> \<not> storableIn iv 2"
    by (simp add: storage_None[OF sh] blocksFor_simps)
  have s0: "findOptimalStorageLocation (shs 3) iv None = None
            \<longleftrightarrow> \<not> storableIn iv 1 \<and> \<not> storableIn iv 2"
    by (simp add: storage_None[OF sh] blocksFor_simps)
  define src where "src = orElse (findOptimalPickLocation (shs 0) iv (Some 2))
                  (findOptimalPickLocation (shs 1) iv (Some 1))"
  define sb :: int where "sb = (if pickableIn iv 2 then 2 else 1)"
  define ob :: int where "ob = (if sb = 1 then 2 else 1)"
  define tb :: int where "tb = (if storableIn iv ob then ob else sb)"
  have srcN: "src = None \<longleftrightarrow> \<not> pickableIn iv 2 \<and> \<not> pickableIn iv 1"
    unfolding src_def orElse_def using p1 p2 by (auto split: option.splits)
  have srcS: "loc_block loc = sb \<and> loc_layer loc \<in> {1..7}
         \<and> loc_row loc \<in> set (rowsOf sb)
         \<and> (\<exists>d. findNextOccupiedSlot iv sb (loc_layer loc) (loc_row loc)
                  = Some (loc_cellId loc, d, loc_palletId loc))" if "src = Some loc" for loc
  proof (cases "findOptimalPickLocation (shs 0) iv (Some 2)")
    case None
    with that have "findOptimalPickLocation (shs 1) iv (Some 1) = Some loc"
      by (simp add: src_def orElse_def)
    from pick_Some[OF sh this] None p2 show ?thesis
      by (auto simp: sb_def blocksFor_simps)
  next
    case (Some a)
    with that have "findOptimalPickLocation (shs 0) iv (Some 2) = Some loc"
      by (simp add: src_def orElse_def)
    from pick_Some[OF sh this] Some p2 show ?thesis
      by (auto simp: sb_def blocksFor_simps)
  qed
  define tgt where "tgt = orElse (findOptimalStorageLocation (shs 2) iv (Some ob))
                       (findOptimalStorageLocation (shs 3) iv None)"
  have ob12: "ob = 1 \<or> ob = 2" "sb = 1 \<or> sb = 2" "ob \<noteq> sb"
    by (auto simp: ob_def sb_def)
  have tgtN: "tgt = None \<longleftrightarrow> \<not> storableIn iv 1 \<and> \<not> storableIn iv 2"
    unfolding tgt_def orElse_def using s0 s1 s2 ob12 by (auto split: option.splits)
  have tgtS: "loc_block loc = tb \<and> loc_layer loc \<in> {1..7}
         \<and> loc_row loc \<in> set (rowsOf tb)
         \<and> (\<exists>d. findNextEmptySlot iv tb (loc_layer loc) (loc_row loc)
                  = Some (loc_cellId loc, d))" if "tgt = Some loc" for loc
  proof (cases "findOptimalStorageLocation (shs 2) iv (Some ob)")
    case None
    then have no: "\<not> storableIn iv ob" using s1 s2 ob12 by auto
    from None that have f: "findOptimalStorageLocation (shs 3) iv None = Some loc"
      by (simp add: tgt_def orElse_def)
    from storage_Some[OF sh f] have "loc_block loc = 1 \<or> loc_block loc = 2"
      by (auto simp: blocksFor_simps)
    moreover from storage_Some[OF sh f] have st: "storableIn iv (loc_block loc)"
      unfolding storableIn_def by blast
    ultimately have "loc_block loc = 1 \<or> loc_block loc = 2" "storableIn iv (loc_block loc)"
      by simp_all
    with no ob12 have "loc_block loc = sb" by auto
    with storage_Some[OF sh f] no show ?thesis by (auto simp: tb_def)
  next
    case (Some a)
    then have yes: "storableIn iv ob" using s1 s2 ob12 by auto
    from Some that have f: "findOptimalStorageLocation (shs 2) iv (Some ob) = Some loc"
      by (simp add: tgt_def orElse_def)
    from storage_Some[OF sh f] ob12 have "loc_block loc = ob"
      by (auto simp: blocksFor_simps)
    with storage_Some[OF sh f] yes show ?thesis by (auto simp: tb_def)
  qed
  have gen: "generateTransferTask shs tid sid lay iv =
     (case src of None \<Rightarrow> None
      | Some sourceLocation \<Rightarrow>
         (case tgt of None \<Rightarrow> None
          | Some targetLocation \<Rightarrow>
               Some \<lparr>task_id = tid, shuttleId = sid,
                     sourceBin = loc_cellId sourceLocation,
                     targetBin = loc_cellId targetLocation, task_type = TRANSFER,
                     status = Pending,
                     eta = calculateETA (loc_row sourceLocation) (loc_row targetLocation)\<rparr>))"
  proof -
    have gen0: "generateTransferTask shs tid sid lay iv =
     (case src of None \<Rightarrow> None
      | Some sourceLocation \<Rightarrow>
          let preferredTargetBlock = (if loc_block sourceLocation = 1 then 2 else 1) in
          (case orElse (findOptimalStorageLocation (shs 2) iv (Some preferredTargetBlock))
                       (findOptimalStorageLocation (shs 3) iv None) of
             None \<Rightarrow> None
           | Some targetLocation \<Rightarrow>
               Some \<lparr>task_id = tid, shuttleId = sid,
                     sourceBin = loc_cellId sourceLocation,
                     targetBin = loc_cellId targetLocation, task_type = TRANSFER,
                     status = Pending,
                     eta = calculateETA (loc_row sourceLocation) (loc_row targetLocation)\<rparr>))"
      unfolding generateTransferTask_def src_def ..
    show ?thesis
    proof (cases src)
      case None
      then show ?thesis unfolding gen0 by simp
    next
      case (Some loc)
      from srcS[OF Some] have "(if loc_block loc = 1 then 2 else 1) = ob"
        using ob12 by (auto simp: ob_def)
      with Some show ?thesis
        unfolding gen0 tgt_def by (simp add: Let_def)
    qed
  qed
  have A: "generateTransferTask shs tid sid lay iv = None
            \<longleftrightarrow> (\<not> pickableIn iv 2 \<and> \<not> pickableIn iv 1)
                \<or> (\<not> storableIn iv 1 \<and> \<not> storableIn iv 2)"
    unfolding gen using srcN tgtN by (auto split: option.splits)
  have B: "(\<exists>l r d p. l \<in> {1..7} \<and> r \<in> set (rowsOf sb)
                    \<and> findNextOccupiedSlot iv sb l r = Some (sourceBin t, d, p)
                    \<and> sourceBin t = cellIdOf sb l r (int d))
                \<and> (\<exists>l r d. l \<in> {1..7} \<and> r \<in> set (rowsOf tb)
                    \<and> findNextEmptySlot iv tb l r = Some (targetBin t, d)
                    \<and> targetBin t = cellIdOf tb l r (int d))
                \<and> task_type t = TRANSFER \<and> status t = Pending
                \<and> shuttleId t = sid \<and> task_id t = tid"
    if "generateTransferTask shs tid sid lay iv = Some t" for t
  proof -
    from that obtain sl tl where sl: "src = Some sl" and tl: "tgt = Some tl"
      and t: "t = \<lparr>task_id = tid, shuttleId = sid, sourceBin = loc_cellId sl,
                     targetBin = loc_cellId tl, task_type = TRANSFER, status = Pending,
                     eta = calculateETA (loc_row sl) (loc_row tl)\<rparr>"
      unfolding gen by (auto split: option.splits)
    from srcS[OF sl] obtain d where
      d: "findNextOccupiedSlot iv sb (loc_layer sl) (loc_row sl)
            = Some (loc_cellId sl, d, loc_palletId sl)"
      and sl': "loc_layer sl \<in> {1..7}" "loc_row sl \<in> set (rowsOf sb)"
      by blast
    from d have dc: "loc_cellId sl = cellIdOf sb (loc_layer sl) (loc_row sl) (int d)"
      by (simp add: findNextOccupiedSlot_Some)
    from tgtS[OF tl] obtain e where
      e: "findNextEmptySlot iv tb (loc_layer tl) (loc_row tl) = Some (loc_cellId tl, e)"
      and tl': "loc_layer tl \<in> {1..7}" "loc_row tl \<in> set (rowsOf tb)"
      by blast
    from e have ec: "loc_cellId tl = cellIdOf tb (loc_layer tl) (loc_row tl) (int e)"
      by (simp add: findNextEmptySlot_def scanDown_Some)
    from d sl' dc e tl' ec show ?thesis unfolding t by force
  qed
  from A B show ?thesis
    unfolding Let_def sb_def[symmetric] ob_def[symmetric] tb_def[symmetric] by blast
qed

text \<open>
  An inventory with two of three cells occupied in block 1 and one of two in block 2, and
  the transfer task generated on it.
\<close>

definition ivSkew2 :: inventory where
  "ivSkew2 =
     [(''B1-L1-R00-D0'', \<lparr>occupied = False, palletId = None, block = 1, layer = 1, row = 0, depth = 0\<rparr>),
      (''B1-L1-R00-D1'', \<lparr>occupied = True, palletId = Some ''PLT-000001'', block = 1, layer = 1, row = 0, depth = 1\<rparr>),
      (''B1-L1-R00-D2'', \<lparr>occupied = True, palletId = Some ''PLT-000002'', block = 1, layer = 1, row = 0, depth = 2\<rparr>),
      (''B2-L1-R00-D0'', \<lparr>occupied = False, palletId = None, block = 2, layer = 1, row = 0, depth = 0\<rparr>),
      (''B2-L1-R00-D1'', \<lparr>occupied = True, palletId = Some ''PLT-000003'', block = 2, layer = 1, row = 0, depth = 1\<rparr>)]"

definition transferTaskSkew :: task where
  "transferTaskSkew =
     \<lparr>task_id = ''TSK-1'', shuttleId = ''SH-001'', sourceBin = ''B2-L1-R00-D1'',
      targetBin = ''B1-L1-R00-D0'', task_type = TRANSFER, status = Pending,
      eta = ''~1 min''\<rparr>"

lemma gen_skew:
  "generateTransferTask keepOrder ''TSK-1'' ''SH-001'' 1 ivSkew2 = Some transferTaskSkew"
  by code_simp

text \<open>
  The claim as stated fails: here block 1 holds more pallets than block 2, by count and by
  rate, and has a pick location, but the source is the block 2 cell.
\<close>

theorem generateTransferTask_source_not_from_fuller_block:
  "st_occupied (getBlockStats ivSkew2 2) < st_occupied (getBlockStats ivSkew2 1)
   \<and> st_utilizationRate (getBlockStats ivSkew2 2) < st_utilizationRate (getBlockStats ivSkew2 1)
   \<and> findOptimalPickLocation (keepOrder 1) ivSkew2 (Some 1) \<noteq> None
   \<and> map_option sourceBin (generateTransferTask keepOrder ''TSK-1'' ''SH-001'' 1 ivSkew2)
       = Some (cellIdOf 2 1 0 1)"
proof (intro conjI)
  show "st_occupied (getBlockStats ivSkew2 2) < st_occupied (getBlockStats ivSkew2 1)"
    by (simp add: getBlockStats_def mkStats_def ivSkew2_def)
  show "st_utilizationRate (getBlockStats ivSkew2 2) < st_utilizationRate (getBlockStats ivSkew2 1)"
    by (simp add: getBlockStats_def mkStats_def ivSkew2_def)
  show "findOptimalPickLocation (keepOrder 1) ivSkew2 (Some 1) \<noteq> None"
    by code_simp
  show "map_option sourceBin (generateTransferTask keepOrder ''TSK-1'' ''SH-001'' 1 ivSkew2)
       = Some (cellIdOf 2 1 0 1)"
    by code_simp
qed

theorem generateTransferTask_prefers_block_two_witness:
  "permuting keepOrder
   \<and> pickableIn ivSkew2 2 \<and> storableIn ivSkew2 1
   \<and> generateTransferTask keepOrder ''TSK-1'' ''SH-001'' 1 ivSkew2 = Some transferTaskSkew
   \<and> (\<exists>l r d p. l \<in> {1..7} \<and> r \<in> set (rowsOf 2)
          \<and> findNextOccupiedSlot ivSkew2 2 l r = Some (sourceBin transferTaskSkew, d, p)
          \<and> sourceBin transferTaskSkew = cellIdOf 2 l r (int d))
   \<and> (\<exists>l r d. l \<in> {1..7} \<and> r \<in> set (rowsOf 1)
          \<and> findNextEmptySlot ivSkew2 1 l r = Some (targetBin transferTaskSkew, d)
          \<and> targetBin transferTaskSkew = cellIdOf 1 l r (int d))"
proof -
  have p: "permuting keepOrder" by (simp add: permuting_def keepOrder_def)
  have o: "findNextOccupiedSlot ivSkew2 2 1 0 \<noteq> None" by code_simp
  have e: "findNextEmptySlot ivSkew2 1 1 0 \<noteq> None" by code_simp
  have pk: "pickableIn ivSkew2 2"
    unfolding pickableIn_def using o by (intro bexI[of _ 1] bexI[of _ 0]) (simp_all add: rowsOf_def)
  have st: "storableIn ivSkew2 1"
    unfolding storableIn_def using e by (intro bexI[of _ 1] bexI[of _ 0]) (simp_all add: rowsOf_def)
  note T = generateTransferTask_prefers_block_two[OF p, of "''TSK-1''" "''SH-001''" 1 ivSkew2,
      THEN conjunct2, rule_format, OF gen_skew]
  from T pk st have
    "(\<exists>l r d p. l \<in> {1..7} \<and> r \<in> set (rowsOf 2)
          \<and> findNextOccupiedSlot ivSkew2 2 l r = Some (sourceBin transferTaskSkew, d, p)
          \<and> sourceBin transferTaskSkew = cellIdOf 2 l r (int d))
   \<and> (\<exists>l r d. l \<in> {1..7} \<and> r \<in> set (rowsOf 1)
          \<and> findNextEmptySlot ivSkew2 1 l r = Some (targetBin transferTaskSkew, d)
          \<and> targetBin transferTaskSkew = cellIdOf 1 l r (int d))"
    by (simp add: Let_def)
  with p pk st gen_skew show ?thesis by blast
qed

section \<open>Dashboard store: the task operations\<close>

text \<open>
  The part of the store the task operations read and write: the shuttles (identifier and
  layer \<open>z\<close>), the tasks, the inventory with its version counter and cached statistics. A
  status is one of the four the operations document. \<open>setStatus\<close> is the
  \<^verbatim>\<open>tasks.map(task => task.id === id ? {...task, status} : task)\<close> the operations share.
\<close>

record shuttle =
  shuttle_id :: string
  z :: int

record store =
  shuttles :: "shuttle list"
  tasks :: "task list"
  inventory :: inventory
  inventoryVersion :: nat
  inventoryStats :: stats

definition setStatus :: "string \<Rightarrow> taskStatus \<Rightarrow> task list \<Rightarrow> task list" where
  "setStatus taskId newStatus ts =
     map (\<lambda>t. if task_id t = taskId then t\<lparr>status := newStatus\<rparr> else t) ts"

definition updateTaskStatus :: "string \<Rightarrow> taskStatus \<Rightarrow> store \<Rightarrow> store" where
  "updateTaskStatus taskId newStatus s = s\<lparr>tasks := setStatus taskId newStatus (tasks s)\<rparr>"

definition startNextTask :: "string \<Rightarrow> store \<Rightarrow> task option \<times> store" where
  "startNextTask sid s =
     (case find (\<lambda>t. shuttleId t = sid \<and> status t = Pending) (tasks s) of
        Some taskToStart \<Rightarrow>
          (Some taskToStart, s\<lparr>tasks := setStatus (task_id taskToStart) InProgress (tasks s)\<rparr>)
      | None \<Rightarrow> (None, s))"

text \<open>
  \<open>completeNextTask\<close> reads \<open>tasks\<close>, \<open>inventory\<close> and \<open>shuttles\<close> once, at entry. The
  \<^verbatim>\<open>switch\<close> on the task type runs on a copy of the inventory (\<open>applyTaskToInventory\<close>);
  the copy replaces the store's inventory only when the mutator reported success. The check
  for a new task uses the tasks read at entry, in which the completed task is still in
  progress.
\<close>

definition applyTaskToInventory :: "string \<Rightarrow> inventory \<Rightarrow> task \<Rightarrow> bool \<times> inventory" where
  "applyTaskToInventory rnd newInventory taskToComplete =
     (case task_type taskToComplete of
        INBOUND \<Rightarrow> storePallet rnd newInventory (targetBin taskToComplete)
      | OUTBOUND \<Rightarrow>
          (let removed = removePallet newInventory (sourceBin taskToComplete)
           in (fst removed \<noteq> None, snd removed))
      | TRANSFER \<Rightarrow>
          transferPallet newInventory (sourceBin taskToComplete) (targetBin taskToComplete))"

definition completeNextTask :: "randomness \<Rightarrow> string \<Rightarrow> store \<Rightarrow> store" where
  "completeNextTask rng sid s =
     (case find (\<lambda>t. shuttleId t = sid \<and> status t = InProgress) (tasks s) of
        None \<Rightarrow> s
      | Some taskToComplete \<Rightarrow>
          let applied = applyTaskToInventory (palletSuffix rng) (inventory s) taskToComplete;
              inventoryUpdated = fst applied;
              newInventory = snd applied;
              s1 = s\<lparr>tasks := setStatus (task_id taskToComplete) Completed (tasks s),
                     inventory := (if inventoryUpdated then newInventory else inventory s),
                     inventoryVersion :=
                       (if inventoryUpdated then inventoryVersion s + 1
                        else inventoryVersion s)\<rparr>;
              s2 = s1\<lparr>inventoryStats := getInventoryStats (inventory s1)\<rparr>
          in (case find (\<lambda>sh. shuttle_id sh = sid) (shuttles s) of
                None \<Rightarrow> s2
              | Some shuttle \<Rightarrow>
                  if shouldGenerateNewTask (filter (\<lambda>t. shuttleId t = sid) (tasks s)) then
                    (let currentInventory =
                           (if inventoryUpdated then newInventory else inventory s)
                     in (case generateIntelligentTask rng currentInventory sid (z shuttle) of
                           None \<Rightarrow> s2
                         | Some newTask \<Rightarrow> s2\<lparr>tasks := tasks s2 @ [newTask]\<rparr>))
                  else s2))"

definition addTask :: "task \<Rightarrow> store \<Rightarrow> store" where
  "addTask t s = s\<lparr>tasks := tasks s @ [t]\<rparr>"

text \<open>Sequences of task operations, and the order of the statuses.\<close>

datatype operation =
    StartNextTask string
  | CompleteNextTask randomness string
  | UpdateTaskStatus string taskStatus
  | AddTask task

fun applyOp :: "operation \<Rightarrow> store \<Rightarrow> store" where
  "applyOp (StartNextTask sid) s = snd (startNextTask sid s)"
| "applyOp (CompleteNextTask rng sid) s = completeNextTask rng sid s"
| "applyOp (UpdateTaskStatus taskId newStatus) s = updateTaskStatus taskId newStatus s"
| "applyOp (AddTask t) s = addTask t s"

fun run :: "operation list \<Rightarrow> store \<Rightarrow> store" where
  "run [] s = s"
| "run (op # ops) s = run ops (applyOp op s)"

fun isUpdateTaskStatus :: "operation \<Rightarrow> bool" where
  "isUpdateTaskStatus (UpdateTaskStatus taskId newStatus) = True"
| "isUpdateTaskStatus other = False"

fun idsDistinctAlong :: "operation list \<Rightarrow> store \<Rightarrow> bool" where
  "idsDistinctAlong [] s = distinct (map task_id (tasks s))"
| "idsDistinctAlong (op # ops) s =
     (distinct (map task_id (tasks s)) \<and> idsDistinctAlong ops (applyOp op s))"

text \<open>
  \<open>moves\<close> is one step of a task's life; \<open>oneStep\<close> is what a single operation may do to a
  status, \<open>advances\<close> what a sequence of operations may do. \<open>stepsBy R\<close> compares two task
  lists place by place: the later list keeps every task of the earlier one at its place, with
  its identifier, and with a status related by \<open>R\<close>.
\<close>

definition moves :: "taskStatus \<Rightarrow> taskStatus \<Rightarrow> bool" where
  "moves a b = ((a = Pending \<and> b = InProgress) \<or> (a = InProgress \<and> b = Completed))"

definition oneStep :: "taskStatus \<Rightarrow> taskStatus \<Rightarrow> bool" where
  "oneStep a b = (a = b \<or> moves a b)"

definition advances :: "taskStatus \<Rightarrow> taskStatus \<Rightarrow> bool" where
  "advances a b = (a = b \<or> moves a b \<or> (a = Pending \<and> b = Completed))"

definition stepsBy ::
  "(taskStatus \<Rightarrow> taskStatus \<Rightarrow> bool) \<Rightarrow> task list \<Rightarrow> task list \<Rightarrow> bool" where
  "stepsBy R ts ts' =
     (length ts \<le> length ts'
      \<and> (\<forall>i<length ts. task_id (ts' ! i) = task_id (ts ! i)
             \<and> R (status (ts ! i)) (status (ts' ! i))))"

subsection \<open>Example stores\<close>

definition rngA :: randomness where
  "rngA = \<lparr>rand = 0.5, taskStamp = ''M5X2K1'', taskSuffix = ''A1B2'', shuffles = keepOrder,
           palletSuffix = ''Q7W8E9''\<rparr>"

definition taskT1 :: task where
  "taskT1 = \<lparr>task_id = ''TSK-1'', shuttleId = ''SH-001'', sourceBin = ''AISLE-L1-R14'',
             targetBin = ''B1-L1-R00-D0'', task_type = INBOUND, status = InProgress,
             eta = ''~4 min''\<rparr>"

definition taskT2 :: task where
  "taskT2 = \<lparr>task_id = ''TSK-2'', shuttleId = ''SH-001'', sourceBin = ''B2-L1-R00-D1'',
             targetBin = ''AISLE-L1-R14'', task_type = OUTBOUND, status = Pending,
             eta = ''~4 min''\<rparr>"

definition storeOf :: "task list \<Rightarrow> store" where
  "storeOf ts =
     \<lparr>shuttles = [\<lparr>shuttle_id = ''SH-001'', z = 1\<rparr>, \<lparr>shuttle_id = ''SH-002'', z = 4\<rparr>],
      tasks = ts, inventory = ivSkew2, inventoryVersion = 1,
      inventoryStats = getInventoryStats ivSkew2\<rparr>"

subsection \<open>Status changes of the task operations\<close>

lemma setStatus_length: "length (setStatus k st ts) = length ts"
  by (simp add: setStatus_def)

lemma setStatus_nth:
  "i < length ts \<Longrightarrow>
   setStatus k st ts ! i = (if task_id (ts ! i) = k then (ts ! i)\<lparr>status := st\<rparr> else ts ! i)"
  by (simp add: setStatus_def)

lemma distinct_ids_nth:
  assumes "distinct (map task_id ts)" "t \<in> set ts" "i < length ts"
    and "task_id (ts ! i) = task_id t"
  shows "ts ! i = t"
proof -
  from assms(1) have inj: "inj_on task_id (set ts)" by (simp add: distinct_map)
  from assms(3) have "ts ! i \<in> set ts" by simp
  with inj_onD[OF inj, of "ts ! i" t] assms(2,4) show ?thesis by simp
qed

lemma oneStep_refl: "oneStep a a"
  by (simp add: oneStep_def)

lemma advances_refl: "advances a a"
  by (simp add: advances_def)

lemma oneStep_advances: "oneStep a b \<Longrightarrow> advances a b"
  by (auto simp: oneStep_def advances_def)

lemma advances_trans: "advances a b \<Longrightarrow> advances b c \<Longrightarrow> advances a c"
  by (cases a; cases b; cases c) (auto simp: advances_def moves_def)

lemma advances_final: "advances a b \<Longrightarrow> a = Completed \<or> a = Failed \<Longrightarrow> b = a"
  by (auto simp: advances_def moves_def)

lemma stepsBy_refl: "(\<And>a. R a a) \<Longrightarrow> stepsBy R ts ts"
  by (simp add: stepsBy_def)

lemma stepsBy_mono:
  "(\<And>a b. R a b \<Longrightarrow> R' a b) \<Longrightarrow> stepsBy R ts ts' \<Longrightarrow> stepsBy R' ts ts'"
  by (simp add: stepsBy_def)

lemma stepsBy_trans:
  assumes a: "stepsBy advances ts ts'" and b: "stepsBy advances ts' ts''"
  shows "stepsBy advances ts ts''"
  unfolding stepsBy_def
proof (intro conjI allI impI)
  from a b show "length ts \<le> length ts''" by (simp add: stepsBy_def)
next
  fix i assume i: "i < length ts"
  with a have i': "i < length ts'" by (simp add: stepsBy_def)
  from a i have 1: "task_id (ts' ! i) = task_id (ts ! i)"
    "advances (status (ts ! i)) (status (ts' ! i))"
    by (simp_all add: stepsBy_def)
  from b i' have 2: "task_id (ts'' ! i) = task_id (ts' ! i)"
    "advances (status (ts' ! i)) (status (ts'' ! i))"
    by (simp_all add: stepsBy_def)
  from 1 2 show "task_id (ts'' ! i) = task_id (ts ! i)" by simp
  from 1 2 show "advances (status (ts ! i)) (status (ts'' ! i))"
    by (blast intro: advances_trans)
qed

lemma stepsBy_append: "stepsBy R ts ts' \<Longrightarrow> stepsBy R ts (ts' @ us)"
  unfolding stepsBy_def by (auto simp: nth_append)

lemma stepsBy_setStatus:
  assumes "distinct (map task_id ts)" "t \<in> set ts" "R (status t) st" "\<And>a. R a a"
  shows "stepsBy R ts (setStatus (task_id t) st ts)"
  unfolding stepsBy_def
proof (intro conjI allI impI)
  show "length ts \<le> length (setStatus (task_id t) st ts)" by (simp add: setStatus_length)
next
  fix i assume i: "i < length ts"
  show "task_id (setStatus (task_id t) st ts ! i) = task_id (ts ! i)"
    using i by (simp add: setStatus_nth)
  show "R (status (ts ! i)) (status (setStatus (task_id t) st ts ! i))"
  proof (cases "task_id (ts ! i) = task_id t")
    case True
    with assms(1,2) i have "ts ! i = t" by (rule_tac distinct_ids_nth)
    with True i assms(3) show ?thesis by (simp add: setStatus_nth)
  next
    case False
    with i show ?thesis by (simp add: setStatus_nth assms(4))
  qed
qed

lemma find_SomeD: "find P xs = Some x \<Longrightarrow> x \<in> set xs \<and> P x"
  by (induction xs) (auto split: if_splits)

lemma startNextTask_step:
  assumes "distinct (map task_id (tasks s))"
  shows "stepsBy oneStep (tasks s) (tasks (snd (startNextTask sid s)))"
proof (cases "find (\<lambda>t. shuttleId t = sid \<and> status t = Pending) (tasks s)")
  case None
  then show ?thesis by (simp add: startNextTask_def stepsBy_refl oneStep_refl)
next
  case (Some t)
  from find_SomeD[OF Some] have "t \<in> set (tasks s)" "status t = Pending" by simp_all
  then have "stepsBy oneStep (tasks s) (setStatus (task_id t) InProgress (tasks s))"
    using assms by (intro stepsBy_setStatus) (simp_all add: oneStep_def moves_def)
  with Some show ?thesis by (simp add: startNextTask_def)
qed

lemma completeNextTask_tasks:
  assumes "find (\<lambda>t. shuttleId t = sid \<and> status t = InProgress) (tasks s) = Some tk"
  shows "tasks (completeNextTask rng sid s) =
           setStatus (task_id tk) Completed (tasks s)
           @ (case find (\<lambda>sh. shuttle_id sh = sid) (shuttles s) of
                None \<Rightarrow> []
              | Some shuttle \<Rightarrow>
                  if shouldGenerateNewTask (filter (\<lambda>t. shuttleId t = sid) (tasks s)) then
                    (case generateIntelligentTask rng (inventory (completeNextTask rng sid s))
                            sid (z shuttle) of
                       None \<Rightarrow> [] | Some newTask \<Rightarrow> [newTask])
                  else [])"
    and "inventory (completeNextTask rng sid s) =
           (if fst (applyTaskToInventory (palletSuffix rng) (inventory s) tk)
            then snd (applyTaskToInventory (palletSuffix rng) (inventory s) tk)
            else inventory s)"
  using assms
  by (auto simp: completeNextTask_def Let_def split: option.splits)

lemma completeNextTask_step:
  assumes "distinct (map task_id (tasks s))"
  shows "stepsBy oneStep (tasks s) (tasks (completeNextTask rng sid s))"
proof (cases "find (\<lambda>t. shuttleId t = sid \<and> status t = InProgress) (tasks s)")
  case None
  then show ?thesis by (simp add: completeNextTask_def stepsBy_refl oneStep_refl)
next
  case (Some t)
  from find_SomeD[OF Some] have "t \<in> set (tasks s)" "status t = InProgress" by simp_all
  then have "stepsBy oneStep (tasks s) (setStatus (task_id t) Completed (tasks s))"
    using assms by (intro stepsBy_setStatus) (simp_all add: oneStep_def moves_def)
  then show ?thesis
    unfolding completeNextTask_tasks(1)[OF Some] by (rule stepsBy_append)
qed

lemma applyOp_step:
  assumes "distinct (map task_id (tasks s))" "\<not> isUpdateTaskStatus op"
  shows "stepsBy oneStep (tasks s) (tasks (applyOp op s))"
proof (cases op)
  case (StartNextTask sid)
  with assms(1) show ?thesis by (simp add: startNextTask_step)
next
  case (CompleteNextTask rng sid)
  with assms(1) show ?thesis by (simp add: completeNextTask_step)
next
  case (UpdateTaskStatus k st)
  with assms(2) show ?thesis by simp
next
  case (AddTask t)
  then show ?thesis
    by (simp add: addTask_def stepsBy_append stepsBy_refl oneStep_refl)
qed

lemma run_forward:
  "idsDistinctAlong ops s \<Longrightarrow> \<forall>op\<in>set ops. \<not> isUpdateTaskStatus op
   \<Longrightarrow> stepsBy advances (tasks s) (tasks (run ops s))"
proof (induction ops arbitrary: s)
  case Nil
  then show ?case by (simp add: stepsBy_refl advances_refl)
next
  case (Cons op ops)
  from Cons.prems have d: "distinct (map task_id (tasks s))"
    and rest: "idsDistinctAlong ops (applyOp op s)"
    and nu: "\<not> isUpdateTaskStatus op" "\<forall>op\<in>set ops. \<not> isUpdateTaskStatus op"
    by simp_all
  from d nu(1) have "stepsBy oneStep (tasks s) (tasks (applyOp op s))" by (rule applyOp_step)
  then have "stepsBy advances (tasks s) (tasks (applyOp op s))"
    by (rule stepsBy_mono[rotated]) (rule oneStep_advances)
  moreover from rest nu(2)
  have "stepsBy advances (tasks (applyOp op s)) (tasks (run ops (applyOp op s)))"
    by (rule Cons.IH)
  ultimately show ?case by (simp add: stepsBy_trans)
qed

lemma run_append: "run (pre @ rest) s = run rest (run pre s)"
  by (induction pre arbitrary: s) simp_all

lemma idsDistinctAlong_append:
  "idsDistinctAlong (pre @ rest) s
   \<Longrightarrow> idsDistinctAlong pre s \<and> idsDistinctAlong rest (run pre s)"
proof (induction pre arbitrary: s)
  case Nil
  then show ?case by (cases rest) simp_all
next
  case (Cons op pre)
  then show ?case by simp
qed

text \<open>
  Claim C3, as amended. Along every sequence of \<open>startNextTask\<close>, \<open>completeNextTask\<close> and
  \<open>addTask\<close> during which the task identifiers stay pairwise distinct, each task keeps its
  place and identifier; each operation leaves its status as it is or moves it from pending to
  in progress or from in progress to completed, so over the sequence the status only moves
  forward in that order; a completed or failed task keeps its status. \<open>updateTaskStatus\<close>
  is not among the operations: it writes whatever status it is given.
\<close>

theorem task_status_monotonic:
  assumes "idsDistinctAlong ops s"
    and "\<forall>op\<in>set ops. \<not> isUpdateTaskStatus op"
    and "i < length (tasks s)"
  shows "i < length (tasks (run ops s))
       \<and> task_id (tasks (run ops s) ! i) = task_id (tasks s ! i)
       \<and> advances (status (tasks s ! i)) (status (tasks (run ops s) ! i))
       \<and> (status (tasks s ! i) = Completed \<or> status (tasks s ! i) = Failed
            \<longrightarrow> status (tasks (run ops s) ! i) = status (tasks s ! i))
       \<and> (\<forall>pre op post. ops = pre @ op # post \<longrightarrow>
            oneStep (status (tasks (run pre s) ! i)) (status (tasks (run (pre @ [op]) s) ! i)))"
proof -
  from run_forward[OF assms(1,2)] assms(3)
  have a: "i < length (tasks (run ops s))"
    and b: "task_id (tasks (run ops s) ! i) = task_id (tasks s ! i)"
    and c: "advances (status (tasks s ! i)) (status (tasks (run ops s) ! i))"
    by (auto simp: stepsBy_def)
  from c have d: "status (tasks s ! i) = Completed \<or> status (tasks s ! i) = Failed
            \<longrightarrow> status (tasks (run ops s) ! i) = status (tasks s ! i)"
    by (auto dest: advances_final)
  have e: "oneStep (status (tasks (run pre s) ! i)) (status (tasks (run (pre @ [op]) s) ! i))"
    if split: "ops = pre @ op # post" for pre op post
  proof -
    from assms(1) split have pre: "idsDistinctAlong pre s"
      and rest: "idsDistinctAlong (op # post) (run pre s)"
      using idsDistinctAlong_append[of pre "op # post" s] by simp_all
    from assms(2) split have nu: "\<forall>op\<in>set pre. \<not> isUpdateTaskStatus op"
      "\<not> isUpdateTaskStatus op"
      by simp_all
    from run_forward[OF pre nu(1)] assms(3) have i: "i < length (tasks (run pre s))"
      by (simp add: stepsBy_def)
    from rest have "distinct (map task_id (tasks (run pre s)))" by simp
    from applyOp_step[OF this nu(2)] i
    have "oneStep (status (tasks (run pre s) ! i)) (status (tasks (applyOp op (run pre s)) ! i))"
      by (simp add: stepsBy_def)
    then show ?thesis by (simp add: run_append)
  qed
  from a b c d e show ?thesis by blast
qed

text \<open>A completed task, a task of the second shuttle, and a run of four operations.\<close>

definition taskDone :: task where
  "taskDone = \<lparr>task_id = ''TSK-0'', shuttleId = ''SH-001'', sourceBin = ''AISLE-L1-R14'',
               targetBin = ''B1-L1-R03-D2'', task_type = INBOUND, status = Completed,
               eta = ''~3 min''\<rparr>"

definition taskT3 :: task where
  "taskT3 = \<lparr>task_id = ''TSK-3'', shuttleId = ''SH-002'', sourceBin = ''AISLE-L4-R14'',
             targetBin = ''B1-L4-R00-D2'', task_type = INBOUND, status = Pending,
             eta = ''~4 min''\<rparr>"

definition opsA :: "operation list" where
  "opsA = [CompleteNextTask rngA ''SH-001'', StartNextTask ''SH-001'', AddTask taskT3,
           StartNextTask ''SH-002'']"

theorem task_status_monotonic_witness:
  "idsDistinctAlong opsA (storeOf [taskDone, taskT1, taskT2])
   \<and> status (tasks (storeOf [taskDone, taskT1, taskT2]) ! 0) = Completed
   \<and> status (tasks (run opsA (storeOf [taskDone, taskT1, taskT2])) ! 0) = Completed
   \<and> status (tasks (storeOf [taskDone, taskT1, taskT2]) ! 2) = Pending
   \<and> advances Pending (status (tasks (run opsA (storeOf [taskDone, taskT1, taskT2])) ! 2))"
proof -
  have d: "idsDistinctAlong opsA (storeOf [taskDone, taskT1, taskT2])" by code_simp
  have n: "\<forall>op\<in>set opsA. \<not> isUpdateTaskStatus op" by (simp add: opsA_def)
  have l0: "0 < length (tasks (storeOf [taskDone, taskT1, taskT2]))"
    and l2: "2 < length (tasks (storeOf [taskDone, taskT1, taskT2]))"
    by (simp_all add: storeOf_def)
  have s0: "status (tasks (storeOf [taskDone, taskT1, taskT2]) ! 0) = Completed"
    by (simp add: storeOf_def taskDone_def)
  have s2: "status (tasks (storeOf [taskDone, taskT1, taskT2]) ! 2) = Pending"
    by (simp add: storeOf_def taskT2_def)
  from task_status_monotonic[OF d n l0] s0
  have a: "status (tasks (run opsA (storeOf [taskDone, taskT1, taskT2])) ! 0) = Completed"
    by simp
  from task_status_monotonic[OF d n l2] s2
  have b: "advances Pending (status (tasks (run opsA (storeOf [taskDone, taskT1, taskT2])) ! 2))"
    by simp
  from d s0 a s2 b show ?thesis by simp
qed

text \<open>
  The claim as stated fails on \<open>updateTaskStatus\<close>, which sets a completed task back to
  pending.
\<close>

theorem updateTaskStatus_reopens_completed_task:
  "status (tasks (storeOf [taskDone]) ! 0) = Completed
   \<and> status (tasks (run [UpdateTaskStatus ''TSK-0'' Pending] (storeOf [taskDone])) ! 0) = Pending"
  by (simp add: storeOf_def taskDone_def updateTaskStatus_def setStatus_def)

subsection \<open>Queue maintenance\<close>

text \<open>The number of a shuttle's tasks that are pending or in progress.\<close>

definition activeCount :: "string \<Rightarrow> task list \<Rightarrow> nat" where
  "activeCount sid ts =
     length (filter (\<lambda>t. shuttleId t = sid \<and> (status t = Pending \<or> status t = InProgress)) ts)"

lemma activeCount_filter:
  "length (filter (\<lambda>t. status t = Pending \<or> status t = InProgress)
            (filter (\<lambda>t. shuttleId t = sid) ts)) = activeCount sid ts"
  by (simp add: activeCount_def conj_commute)

lemma activeCount_setStatus:
  assumes "distinct (map task_id ts)" "tk \<in> set ts" "shuttleId tk = sid"
    "status tk = InProgress"
  shows "activeCount sid ts = Suc (activeCount sid (setStatus (task_id tk) Completed ts))"
  using assms
proof (induction ts)
  case Nil
  then show ?case by simp
next
  case (Cons a ts)
  show ?case
  proof (cases "a = tk")
    case True
    with Cons.prems have "task_id tk \<notin> task_id ` set ts" by simp
    then have "\<forall>t\<in>set ts. task_id t \<noteq> task_id tk" by (metis imageI)
    then have "setStatus (task_id tk) Completed ts = ts"
      by (simp add: setStatus_def map_idI)
    with True Cons.prems show ?thesis
      by (simp add: activeCount_def setStatus_def)
  next
    case False
    with Cons.prems have in_ts: "tk \<in> set ts" and ne: "task_id a \<noteq> task_id tk"
      by auto
    from Cons.prems have d: "distinct (map task_id ts)" by simp
    from Cons.IH[OF d in_ts Cons.prems(3,4)] ne show ?thesis
      by (simp add: activeCount_def setStatus_def)
  qed
qed

text \<open>
  Claim C5, as amended. When \<open>completeNextTask\<close> completes a task of a shuttle (task
  identifiers pairwise distinct), the count of the shuttle's pending or in-progress tasks that
  decides on a new task is the one of the task list read at entry, one more than the count
  after the completion. If the shuttle is in the store's shuttle list and that count is below
  2, exactly one task is generated on the inventory after the completion and appended, or
  nothing when generation returns null; if the shuttle is not in the list or the count is 2
  or more, nothing is appended.
\<close>

theorem completeNextTask_queue_maintenance:
  assumes "find (\<lambda>t. shuttleId t = sid \<and> status t = InProgress) (tasks s) = Some tk"
    and "distinct (map task_id (tasks s))"
  shows "(let s' = completeNextTask rng sid s;
              completed = setStatus (task_id tk) Completed (tasks s)
          in activeCount sid (tasks s) = Suc (activeCount sid completed)
             \<and> (\<forall>sh. find (\<lambda>sh. shuttle_id sh = sid) (shuttles s) = Some sh
                      \<and> activeCount sid (tasks s) < 2 \<longrightarrow>
                   tasks s' = completed
                     @ (case generateIntelligentTask rng (inventory s') sid (z sh) of
                          None \<Rightarrow> [] | Some newTask \<Rightarrow> [newTask]))
             \<and> (find (\<lambda>sh. shuttle_id sh = sid) (shuttles s) = None
                  \<or> 2 \<le> activeCount sid (tasks s) \<longrightarrow> tasks s' = completed))"
proof -
  from find_SomeD[OF assms(1)] have tk: "tk \<in> set (tasks s)" "shuttleId tk = sid"
    "status tk = InProgress" by simp_all
  have c: "activeCount sid (tasks s)
           = Suc (activeCount sid (setStatus (task_id tk) Completed (tasks s)))"
    using assms(2) tk by (rule activeCount_setStatus)
  have g: "shouldGenerateNewTask (filter (\<lambda>t. shuttleId t = sid) (tasks s))
           \<longleftrightarrow> activeCount sid (tasks s) < 2"
    unfolding shouldGenerateNewTask_def activeCount_filter ..
  show ?thesis
    unfolding Let_def completeNextTask_tasks(1)[OF assms(1)] g
    using c by (auto split: option.splits)
qed

theorem completeNextTask_queue_maintenance_witness:
  "find (\<lambda>t. shuttleId t = ''SH-001'' \<and> status t = InProgress) (tasks (storeOf [taskT1]))
     = Some taskT1
   \<and> distinct (map task_id (tasks (storeOf [taskT1])))
   \<and> activeCount ''SH-001'' (tasks (storeOf [taskT1])) = 1
   \<and> (\<exists>newTask. tasks (completeNextTask rngA ''SH-001'' (storeOf [taskT1]))
         = [taskT1\<lparr>status := Completed\<rparr>, newTask])"
proof -
  have f: "find (\<lambda>t. shuttleId t = ''SH-001'' \<and> status t = InProgress) (tasks (storeOf [taskT1]))
     = Some taskT1"
    by (simp add: storeOf_def taskT1_def)
  have d: "distinct (map task_id (tasks (storeOf [taskT1])))"
    by (simp add: storeOf_def)
  have a: "activeCount ''SH-001'' (tasks (storeOf [taskT1])) = 1"
    by (simp add: activeCount_def storeOf_def taskT1_def)
  have sh: "find (\<lambda>sh. shuttle_id sh = ''SH-001'') (shuttles (storeOf [taskT1]))
     = Some \<lparr>shuttle_id = ''SH-001'', z = 1\<rparr>"
    by (simp add: storeOf_def)
  have g: "generateIntelligentTask rngA
             (inventory (completeNextTask rngA ''SH-001'' (storeOf [taskT1]))) ''SH-001'' 1 \<noteq> None"
    by code_simp
  have c: "setStatus (task_id taskT1) Completed (tasks (storeOf [taskT1]))
           = [taskT1\<lparr>status := Completed\<rparr>]"
    by (simp add: setStatus_def storeOf_def)
  note T = completeNextTask_queue_maintenance[OF f d, of rngA, unfolded Let_def,
      THEN conjunct2, THEN conjunct1, rule_format, of "\<lparr>shuttle_id = ''SH-001'', z = 1\<rparr>"]
  from T sh a have "tasks (completeNextTask rngA ''SH-001'' (storeOf [taskT1]))
      = setStatus (task_id taskT1) Completed (tasks (storeOf [taskT1]))
        @ (case generateIntelligentTask rngA
                  (inventory (completeNextTask rngA ''SH-001'' (storeOf [taskT1]))) ''SH-001'' 1 of
             None \<Rightarrow> [] | Some newTask \<Rightarrow> [newTask])"
    by simp
  with g c have "\<exists>newTask. tasks (completeNextTask rngA ''SH-001'' (storeOf [taskT1]))
         = [taskT1\<lparr>status := Completed\<rparr>, newTask]"
    by (auto split: option.splits)
  with f d a show ?thesis by blast
qed

text \<open>
  The claim as stated fails: after this completion the shuttle has one pending task, fewer
  than 2, the shuttle is registered and generation would succeed, yet nothing is appended.
\<close>

theorem completeNextTask_counts_before_completion:
  "activeCount ''SH-001'' (tasks (completeNextTask rngA ''SH-001'' (storeOf [taskT1, taskT2]))) = 1
   \<and> find (\<lambda>sh. shuttle_id sh = ''SH-001'') (shuttles (storeOf [taskT1, taskT2]))
       = Some \<lparr>shuttle_id = ''SH-001'', z = 1\<rparr>
   \<and> generateIntelligentTask rngA
        (inventory (completeNextTask rngA ''SH-001'' (storeOf [taskT1, taskT2]))) ''SH-001'' 1
       \<noteq> None
   \<and> tasks (completeNextTask rngA ''SH-001'' (storeOf [taskT1, taskT2]))
       = [taskT1\<lparr>status := Completed\<rparr>, taskT2]"
proof (intro conjI)
  show "activeCount ''SH-001'' (tasks (completeNextTask rngA ''SH-001'' (storeOf [taskT1, taskT2]))) = 1"
    by code_simp
  show "find (\<lambda>sh. shuttle_id sh = ''SH-001'') (shuttles (storeOf [taskT1, taskT2]))
       = Some \<lparr>shuttle_id = ''SH-001'', z = 1\<rparr>"
    by (simp add: storeOf_def)
  show "generateIntelligentTask rngA
        (inventory (completeNextTask rngA ''SH-001'' (storeOf [taskT1, taskT2]))) ''SH-001'' 1
       \<noteq> None"
    by code_simp
  show "tasks (completeNextTask rngA ''SH-001'' (storeOf [taskT1, taskT2]))
       = [taskT1\<lparr>status := Completed\<rparr>, taskT2]"
    by code_simp
qed

section \<open>Elevator: claiming cargo from the conveyor\<close>

text \<open>
  The shared simulation state of the warehouse hooks: the elevator, the conveyor, the
  pending cargo and the two counters of the round-robin. Positions and times are real
  numbers. \<open>claimCargo\<close> and \<open>arriveAtTarget\<close> are the two state updaters of the elevator's
  frame callback. The layer height is 1, the elevator stands at \<open>x = 1\<close>, row 14. The list of
  completed deliveries, which no updater writes, is left out of the state.
\<close>

record elevatorRec =
  currentY :: real
  targetLayer :: int
  isMoving :: bool
  hasCargo :: bool
  cargoId :: "int option"

record conveyorRec =
  beltOffset :: real
  conveyorHasCargo :: bool
  cargoPosition :: real
  conveyorIsMoving :: bool

record pendingCargoRec =
  pendingLayer :: int
  pendingPosition :: "real \<times> real \<times> real"
  pendingCargoId :: "int option"

record simState =
  elevator :: elevatorRec
  conveyor :: conveyorRec
  pendingCargo :: "pendingCargoRec option"
  cargoCounter :: int
  lastTargetLayer :: int

definition initialSimState :: simState where
  "initialSimState =
     \<lparr>elevator = \<lparr>currentY = 0, targetLayer = 1, isMoving = False, hasCargo = False,
                   cargoId = None\<rparr>,
      conveyor = \<lparr>beltOffset = 0, conveyorHasCargo = True, cargoPosition = - 0.5,
                   conveyorIsMoving = True\<rparr>,
      pendingCargo = None,
      cargoCounter = 0,
      lastTargetLayer = 4\<rparr>"

definition arriveAtTarget :: "real \<Rightarrow> simState \<Rightarrow> simState" where
  "arriveAtTarget targetY prev =
     prev\<lparr>elevator := (elevator prev)\<lparr>isMoving := False, currentY := targetY\<rparr>,
          pendingCargo :=
            (if hasCargo (elevator prev)
             then Some \<lparr>pendingLayer = targetLayer (elevator prev),
                        pendingPosition = (1, targetY, 14),
                        pendingCargoId = cargoId (elevator prev)\<rparr>
             else None)\<rparr>"

definition claimCargo :: "simState \<Rightarrow> simState" where
  "claimCargo prev =
     (let newTargetLayer = (if lastTargetLayer prev = 1 then 4 else 1) in
      prev\<lparr>conveyor := (conveyor prev)\<lparr>conveyorHasCargo := False, cargoPosition := - 0.5\<rparr>,
           elevator := (elevator prev)\<lparr>hasCargo := True,
                                        cargoId := Some (cargoCounter prev + 1),
                                        targetLayer := newTargetLayer,
                                        isMoving := True\<rparr>,
           cargoCounter := cargoCounter prev + 1,
           lastTargetLayer := newTargetLayer\<rparr>)"

definition canClaim :: "simState \<Rightarrow> bool" where
  "canClaim s =
     (cargoPosition (conveyor s) \<ge> 0.4 \<and> \<not> hasCargo (elevator s) \<and> \<not> isMoving (elevator s))"

text \<open>
  The frame callback of the elevator. It is a closure over the platform height and the
  simulation state of the render that created it: these are the pair \<open>rendered\<close>, and every
  test of the callback reads them. What the callback writes are updaters, which React
  applies to the latest state, the pair \<open>latest\<close>: the platform height is moved from its
  latest value, or set to the target height, and \<open>arriveAtTarget\<close> and \<open>claimCargo\<close> are
  applied to the latest simulation state. The two pairs are equal right after a render and
  differ when a callback runs again before the next render. The local flag that only shows
  or hides the box on the platform is left out.
\<close>

definition elevatorFrame ::
  "bool \<Rightarrow> real \<Rightarrow> real \<times> simState \<Rightarrow> real \<times> simState \<Rightarrow> real \<times> simState" where
  "elevatorFrame isSimulating delta rendered latest =
     (case rendered of (platformY, shown) \<Rightarrow>
        if \<not> isSimulating then latest
        else
          let targetY = real_of_int (targetLayer (elevator shown) - 1) * 1;
              speed = 1.5;
              reachedTarget = (\<bar>platformY - targetY\<bar> \<le> 0.01);
              latest1 =
                (if \<not> reachedTarget
                 then (fst latest + sgn (targetY - platformY) * delta * speed, snd latest)
                 else if isMoving (elevator shown)
                      then (targetY, arriveAtTarget targetY (snd latest))
                      else latest)
          in if canClaim shown then (fst latest1, claimCargo (snd latest1)) else latest1)"

text \<open>
  The other writers of the shared state. The conveyor's frame callback, a closure over the
  rendered state as well, moves the belt, advances the cargo and spawns cargo, the spawn
  depending on a random number \<open>rnd\<close>; the shuttle, when its lift is up, takes the cargo off
  the elevator. \<open>jsRemainder1\<close> is JavaScript's \<^verbatim>\<open>x % 1\<close>, which keeps the sign of \<open>x\<close>.
\<close>

definition jsRemainder1 :: "real \<Rightarrow> real" where
  "jsRemainder1 x = sgn x * frac \<bar>x\<bar>"

definition advanceBelt :: "real \<Rightarrow> simState \<Rightarrow> simState" where
  "advanceBelt delta prev =
     prev\<lparr>conveyor := (conveyor prev)
             \<lparr>beltOffset := jsRemainder1 (beltOffset (conveyor prev) + delta * 0.5)\<rparr>\<rparr>"

definition advanceCargo :: "real \<Rightarrow> simState \<Rightarrow> simState" where
  "advanceCargo delta prev =
     prev\<lparr>conveyor := (conveyor prev)
             \<lparr>cargoPosition := min (cargoPosition (conveyor prev) + delta * 0.3) 0.5\<rparr>\<rparr>"

definition spawnCargo :: "simState \<Rightarrow> simState" where
  "spawnCargo prev =
     prev\<lparr>conveyor := (conveyor prev)\<lparr>conveyorHasCargo := True, cargoPosition := - 0.5\<rparr>\<rparr>"

definition conveyorFrame :: "bool \<Rightarrow> real \<Rightarrow> real \<Rightarrow> simState \<Rightarrow> simState \<Rightarrow> simState" where
  "conveyorFrame isSimulating delta rnd shown prev =
     (if \<not> isSimulating then prev
      else
        let prev1 = advanceBelt delta prev;
            prev2 = (if conveyorHasCargo (conveyor shown) \<and> cargoPosition (conveyor shown) < 0.5
                     then advanceCargo delta prev1 else prev1)
        in if \<not> conveyorHasCargo (conveyor shown) \<and> \<not> hasCargo (elevator shown)
              \<and> rnd < delta * 1.5
           then spawnCargo prev2 else prev2)"

definition pickUpCargo :: "simState \<Rightarrow> simState" where
  "pickUpCargo prev =
     prev\<lparr>elevator := (elevator prev)\<lparr>hasCargo := False\<rparr>, pendingCargo := None\<rparr>"

text \<open>
  The main shuttle of a layer leaves its waiting place for the elevator when the rendered
  state shows pending cargo for its layer and an elevator at rest.
\<close>

definition shuttleSeesCargo :: "int \<Rightarrow> simState \<Rightarrow> bool" where
  "shuttleSeesCargo shuttleLayer shown =
     ((case pendingCargo shown of None \<Rightarrow> False | Some p \<Rightarrow> pendingLayer p = shuttleLayer)
      \<and> \<not> isMoving (elevator shown))"

text \<open>
  The simulation as a whole: the rendered platform height and state, which the callbacks
  read, and the latest ones, which the updaters write. An event is one call of the
  elevator's callback, one call of the conveyor's callback, the shuttle's pick-up, or a
  render, which shows the latest state to the callbacks that run after it. In every
  animation frame the elevator's callback runs before the conveyor's, the order in which
  the scene mounts the two. \<open>deliveries\<close> lists, in order, the layers for which the elevator
  publishes pending cargo on its arrivals.
\<close>

record world =
  renderedY :: real
  renderedState :: simState
  latestY :: real
  latestState :: simState

datatype event =
    ElevatorFrame real
  | ConveyorFrame real real
  | ShuttlePickUp
  | Render

definition initialWorld :: world where
  "initialWorld = \<lparr>renderedY = 0, renderedState = initialSimState,
                    latestY = 0, latestState = initialSimState\<rparr>"

fun stepWorld :: "event \<Rightarrow> world \<Rightarrow> world" where
  "stepWorld (ElevatorFrame delta) w =
     (case elevatorFrame True delta (renderedY w, renderedState w) (latestY w, latestState w) of
        (y, s) \<Rightarrow> w\<lparr>latestY := y, latestState := s\<rparr>)"
| "stepWorld (ConveyorFrame delta rnd) w =
     w\<lparr>latestState := conveyorFrame True delta rnd (renderedState w) (latestState w)\<rparr>"
| "stepWorld ShuttlePickUp w = w\<lparr>latestState := pickUpCargo (latestState w)\<rparr>"
| "stepWorld Render w = w\<lparr>renderedY := latestY w, renderedState := latestState w\<rparr>"

primrec simulate :: "event list \<Rightarrow> world \<Rightarrow> world" where
  "simulate [] w = w"
| "simulate (e # es) w = simulate es (stepWorld e w)"

definition arrives :: "world \<Rightarrow> bool" where
  "arrives w =
     (\<bar>renderedY w - real_of_int (targetLayer (elevator (renderedState w)) - 1) * 1\<bar> \<le> 0.01
      \<and> isMoving (elevator (renderedState w)))"

fun delivered :: "event \<Rightarrow> world \<Rightarrow> int list" where
  "delivered (ElevatorFrame delta) w =
     (if arrives w \<and> hasCargo (elevator (latestState w))
      then [targetLayer (elevator (latestState w))] else [])"
| "delivered (ConveyorFrame delta rnd) w = []"
| "delivered ShuttlePickUp w = []"
| "delivered Render w = []"

primrec deliveries :: "event list \<Rightarrow> world \<Rightarrow> int list" where
  "deliveries [] w = []"
| "deliveries (e # es) w = delivered e w @ deliveries es (stepWorld e w)"

text \<open>
  A run from the initial state. The cargo travels the belt; the elevator claims it for
  layer 1, arrives, and the shuttle of layer 1 takes it; cargo is spawned and travels the
  belt; the elevator's callback then runs in two animation frames with no render in
  between, and the elevator arrives.
\<close>

definition firstDelivery :: "event list" where
  "firstDelivery =
     [ElevatorFrame 4, ConveyorFrame 4 0.5, Render,
      ElevatorFrame 0.016, ConveyorFrame 0.016 0.5, Render,
      ElevatorFrame 0.016, ConveyorFrame 0.016 0.5, Render]"

definition secondCargo :: "event list" where
  "secondCargo =
     [ElevatorFrame 0.016, ConveyorFrame 0.016 0.5, ShuttlePickUp, Render,
      ElevatorFrame 4, ConveyorFrame 4 0.5, Render,
      ElevatorFrame 4, ConveyorFrame 4 0.5, Render]"

definition doubleClaim :: "event list" where
  "doubleClaim =
     [ElevatorFrame 0.016, ConveyorFrame 0.016 0.5,
      ElevatorFrame 0.016, ConveyorFrame 0.016 0.5, Render,
      ElevatorFrame 0.016, ConveyorFrame 0.016 0.5, Render]"

definition doubleClaimRun :: "event list" where
  "doubleClaimRun = firstDelivery @ secondCargo @ doubleClaim"

text \<open>A state ready for the first claim.\<close>

definition readySimState :: simState where
  "readySimState =
     initialSimState\<lparr>conveyor := (conveyor initialSimState)\<lparr>cargoPosition := 0.45\<rparr>\<rparr>"

text \<open>
  A claim does what the round-robin asks of it: in a frame whose rendered state allows the
  claim, the latest state is updated by \<open>claimCargo\<close>, which sets the target layer to the
  layer other than the last target layer, records it as the last target layer, and gives
  the cargo the identifier \<open>cargoCounter + 1\<close>. After a render of the claimed state no
  further claim is made.
\<close>

lemma claim_in_frame:
  "canClaim shown \<Longrightarrow> snd (elevatorFrame True delta (y, shown) (y', prev)) = claimCargo prev"
  by (simp add: elevatorFrame_def canClaim_def Let_def)

lemma claimCargo_round_robin:
  "targetLayer (elevator (claimCargo prev)) = (if lastTargetLayer prev = 1 then 4 else 1)
   \<and> lastTargetLayer (claimCargo prev) = targetLayer (elevator (claimCargo prev))
   \<and> targetLayer (elevator (claimCargo prev)) \<noteq> lastTargetLayer prev
   \<and> cargoId (elevator (claimCargo prev)) = Some (cargoCounter prev + 1)
   \<and> cargoCounter (claimCargo prev) = cargoCounter prev + 1
   \<and> hasCargo (elevator (claimCargo prev)) \<and> isMoving (elevator (claimCargo prev))"
  by (simp add: claimCargo_def Let_def)

lemma no_claim_after_render:
  "\<not> canClaim (claimCargo prev)"
  by (simp add: claimCargo_def canClaim_def Let_def)

lemma elevatorFrame_twice_before_render:
  "snd (elevatorFrame True 0.016 (0, readySimState)
          (elevatorFrame True 0.016 (0, readySimState) (0, readySimState)))
     = claimCargo (claimCargo readySimState)
   \<and> cargoCounter (claimCargo (claimCargo readySimState)) = 2
   \<and> targetLayer (elevator (claimCargo (claimCargo readySimState))) = 4"
  by (simp add: elevatorFrame_def canClaim_def claimCargo_def Let_def readySimState_def
      initialSimState_def)

text \<open>
  Claim C8. Every claim sets the target layer to the layer other than the last target
  layer and takes the identifier \<open>cargoCounter + 1\<close> (\<open>claimCargo_round_robin\<close>), and
  consecutive deliveries are to alternate between the layers 1 and 4. The deliveries of the
  code do not: in the run \<open>doubleClaimRun\<close> from the initial state the first cargo is
  delivered to layer 1 and taken by the shuttle, and the elevator's callback then claims
  the second cargo in two animation frames in a row, both reading the rendered state in
  which the elevator is still empty and at rest. The first of the two claims picks layer 4
  and the identifier 2, the second picks layer 1 again and the identifier 3, and the
  elevator publishes pending cargo for layer 1 a second time: two consecutive deliveries
  to the same layer, and no delivery of the cargo with the identifier 2.
\<close>

theorem elevator_double_claim_repeats_layer:
  "shuttleSeesCargo 1 (renderedState (simulate firstDelivery initialWorld))
   \<and> deliveries doubleClaimRun initialWorld = [1, 1]
   \<and> pendingCargo (latestState (simulate firstDelivery initialWorld))
       = Some \<lparr>pendingLayer = 1, pendingPosition = (1, 0, 14), pendingCargoId = Some 1\<rparr>
   \<and> pendingCargo (latestState (simulate doubleClaimRun initialWorld))
       = Some \<lparr>pendingLayer = 1, pendingPosition = (1, 0, 14), pendingCargoId = Some 3\<rparr>
   \<and> cargoCounter (latestState (simulate doubleClaimRun initialWorld)) = 3
   \<and> lastTargetLayer (latestState (simulate doubleClaimRun initialWorld)) = 1"
  by code_simp

section \<open>The initial inventory and the data invariant\<close>

text \<open>
  \<open>initializeInventory\<close> fills every row from the back: with fill level \<open>n\<close> of a row
  (\<^verbatim>\<open>Math.floor(Math.random() * 4)\<close> in block 1, \<^verbatim>\<open>* 9\<close> in block 2; here the parameter
  \<open>fill\<close>), the cells at depth \<open>3 - n\<close> and beyond (\<open>8 - n\<close> in block 2) are occupied, each
  with a new pallet identifier (its random suffix is \<open>rnd\<close> of the cell). Block 1 skips the
  elevator row 14. The initial inventory satisfies the data invariant, and the mutators keep
  it, so every inventory the store holds satisfies it.
\<close>

definition initialCell :: "int \<Rightarrow> bool \<Rightarrow> string \<Rightarrow> int \<Rightarrow> int \<Rightarrow> int \<Rightarrow> cell" where
  "initialCell b isOccupied rnd l r d =
     \<lparr>occupied = isOccupied,
      palletId = (if isOccupied then Some (generatePalletId rnd) else None),
      block = b, layer = l, row = r, depth = d\<rparr>"

definition block1Entries ::
  "(int \<Rightarrow> int \<Rightarrow> int \<Rightarrow> int) \<Rightarrow> (string \<Rightarrow> string) \<Rightarrow> (string \<times> cell) list" where
  "block1Entries fill rnd =
     [(cellIdOf 1 l r d,
       initialCell 1 (fill 1 l r > 0 \<and> d \<ge> 3 - fill 1 l r) (rnd (cellIdOf 1 l r d)) l r d).
      l \<leftarrow> [1..7], r \<leftarrow> [0..23], r \<noteq> 14, d \<leftarrow> [0..2]]"

definition block2Entries ::
  "(int \<Rightarrow> int \<Rightarrow> int \<Rightarrow> int) \<Rightarrow> (string \<Rightarrow> string) \<Rightarrow> (string \<times> cell) list" where
  "block2Entries fill rnd =
     [(cellIdOf 2 l r d,
       initialCell 2 (fill 2 l r > 0 \<and> d \<ge> 8 - fill 2 l r) (rnd (cellIdOf 2 l r d)) l r d).
      l \<leftarrow> [1..7], r \<leftarrow> [0..23], d \<leftarrow> [0..7]]"

definition initializeInventory ::
  "(int \<Rightarrow> int \<Rightarrow> int \<Rightarrow> int) \<Rightarrow> (string \<Rightarrow> string) \<Rightarrow> inventory" where
  "initializeInventory fill rnd =
     fold (\<lambda>e iv. AList.update (fst e) (snd e) iv)
       (block1Entries fill rnd @ block2Entries fill rnd) []"

lemma fold_update_invariant:
  "palletIdsPresent iv \<Longrightarrow> \<forall>e\<in>set es. occupied (snd e) \<longrightarrow> truthy (palletId (snd e))
   \<Longrightarrow> palletIdsPresent (fold (\<lambda>e iv. AList.update (fst e) (snd e) iv) es iv)"
  by (induction es arbitrary: iv) (auto intro: present_update)

lemma initialCell_truthy: "occupied (initialCell b occ rnd l r d) \<longrightarrow> truthy (palletId (initialCell b occ rnd l r d))"
  by (simp add: initialCell_def truthy_def generatePalletId_def)

lemma initializeInventory_invariant: "palletIdsPresent (initializeInventory fill rnd)"
  unfolding initializeInventory_def
proof (rule fold_update_invariant)
  show "palletIdsPresent []" by (simp add: palletIdsPresent_def)
  show "\<forall>e\<in>set (block1Entries fill rnd @ block2Entries fill rnd).
          occupied (snd e) \<longrightarrow> truthy (palletId (snd e))"
  proof
    fix e assume "e \<in> set (block1Entries fill rnd @ block2Entries fill rnd)"
    then obtain b occ sfx l r d where "snd e = initialCell b occ sfx l r d"
      unfolding block1Entries_def block2Entries_def by auto
    then show "occupied (snd e) \<longrightarrow> truthy (palletId (snd e))"
      by (simp add: initialCell_truthy)
  qed
qed

section \<open>Outside the hypotheses\<close>

text \<open>
  A cell that is occupied but holds no identifier is outside the data model. On such a
  source cell the removal empties the cell, the falsy identifier makes \<open>transferPallet\<close>
  return false before the rollback, and the inventory stays changed.
\<close>

lemma transferPallet_without_identifier:
  "\<not> fst (transferPallet ivNoId ''B1-L1-R00-D0'' ''B1-L1-R01-D0'')
   \<and> snd (transferPallet ivNoId ''B1-L1-R00-D0'' ''B1-L1-R01-D0'') \<noteq> ivNoId"
  by (simp add: transferPallet_def removePallet_def ivNoId_def cellNoId_def cellB_def truthy_def)

text \<open>
  Task identifiers must be distinct for the statuses to move forward only:
  \<open>startNextTask\<close> rewrites every task that carries the identifier of the task it found, so
  a completed task sharing the identifier of a pending one goes back to in progress.
\<close>

definition taskDup1 :: task where
  "taskDup1 = \<lparr>task_id = ''TSK-9'', shuttleId = ''SH-001'', sourceBin = ''AISLE-L1-R14'',
               targetBin = ''B1-L1-R03-D2'', task_type = INBOUND, status = Completed,
               eta = ''~3 min''\<rparr>"

lemma startNextTask_shared_identifier:
  "status (tasks (snd (startNextTask ''SH-001''
       (addTask (taskDup1\<lparr>status := Pending\<rparr>) (storeOf [taskDup1]))))  ! 0) = InProgress"
  by (simp add: startNextTask_def addTask_def storeOf_def taskDup1_def setStatus_def)

text \<open>
  An occupied source cell whose identifier is the empty string: \<open>transferPallet\<close> takes the
  falsy identifier for a failed removal, while remove-then-store succeeds.
\<close>

definition cellEmptyId :: cell where
  "cellEmptyId = \<lparr>occupied = True, palletId = Some '''', block = 1, layer = 1, row = 0, depth = 0\<rparr>"

lemma transferPallet_empty_identifier:
  "\<not> fst (transferPallet [(''B1-L1-R00-D0'', cellEmptyId), (''B1-L1-R01-D0'', cellB)]
            ''B1-L1-R00-D0'' ''B1-L1-R01-D0'')
   \<and> fst (transferSpec rnd [(''B1-L1-R00-D0'', cellEmptyId), (''B1-L1-R01-D0'', cellB)]
            ''B1-L1-R00-D0'' ''B1-L1-R01-D0'')"
  by (simp add: transferPallet_def transferSpec_def removePallet_def storePallet_def
        cellEmptyId_def cellB_def truthy_def)

end
